theory Spec2Isabelle
  imports Complex_Main "HOL-Library.AList"
begin

section \<open>JavaScript values used by the throttle library\<close>

text \<open>
  A JavaScript number is a finite value, one of the two infinities, or NaN.
  Finite values are rationals: the library compares a duration with \<open>1\<close>, so
  fractions matter.
\<close>

datatype jsnum = Fin rat | PosInf | NegInf | NaN

text \<open>Truthiness of a number: \<open>0\<close> and \<open>NaN\<close> are falsy.\<close>

fun num_truthy :: "jsnum \<Rightarrow> bool" where
  "num_truthy (Fin r) = (r \<noteq> 0)"
| "num_truthy NaN = False"
| "num_truthy PosInf = True"
| "num_truthy NegInf = True"

text \<open>The relational operator \<open><\<close> on numbers; every comparison with NaN is false.\<close>

fun num_less :: "jsnum \<Rightarrow> jsnum \<Rightarrow> bool" where
  "num_less NaN _ = False"
| "num_less _ NaN = False"
| "num_less (Fin a) (Fin b) = (a < b)"
| "num_less (Fin a) PosInf = True"
| "num_less (Fin a) NegInf = False"
| "num_less PosInf _ = False"
| "num_less NegInf NegInf = False"
| "num_less NegInf _ = True"

text \<open>The operator \<open>>=\<close>: false with NaN, otherwise the negation of \<open><\<close>.\<close>

fun num_ge :: "jsnum \<Rightarrow> jsnum \<Rightarrow> bool" where
  "num_ge NaN _ = False"
| "num_ge _ NaN = False"
| "num_ge a b = (\<not> num_less a b)"

text \<open>
  Values: arrays and plain objects are structural, functions and promise-like objects
  (objects with callable \<open>then\<close> and \<open>catch\<close>) are known by an identity.
\<close>

datatype jsval =
    JUndefined
  | JNull
  | JBool bool
  | JNum jsnum
  | JStr string
  | JArray "jsval list"
  | JObject "(string \<times> jsval) list"
  | JFunction nat
  | JPromise nat

fun typeof_js :: "jsval \<Rightarrow> string" where
  "typeof_js JUndefined = ''undefined''"
| "typeof_js JNull = ''object''"
| "typeof_js (JBool _) = ''boolean''"
| "typeof_js (JNum _) = ''number''"
| "typeof_js (JStr _) = ''string''"
| "typeof_js (JArray _) = ''object''"
| "typeof_js (JObject _) = ''object''"
| "typeof_js (JFunction _) = ''function''"
| "typeof_js (JPromise _) = ''object''"

fun js_truthy :: "jsval \<Rightarrow> bool" where
  "js_truthy JUndefined = False"
| "js_truthy JNull = False"
| "js_truthy (JBool b) = b"
| "js_truthy (JNum n) = num_truthy n"
| "js_truthy (JStr s) = (s \<noteq> [])"
| "js_truthy _ = True"

text \<open>
  Strict equality \<open>===\<close>: operands of different types are never equal, and NaN is not
  equal to itself. Objects compare by reference in JavaScript; the library only uses
  \<open>===\<close> with a primitive operand, where the structural comparison below agrees.
\<close>

definition strict_equals :: "jsval \<Rightarrow> jsval \<Rightarrow> bool" where
  "strict_equals a b = (typeof_js a = typeof_js b \<and> a = b \<and> a \<noteq> JNum NaN)"

text \<open>\<open>type CacheKey = string | number\<close>; number keys come from the hash and are integers.\<close>

datatype CacheKey = KStr string | KNum int

text \<open>Truthiness of a key, as tested by \<open>if (evictKey)\<close>: \<open>''\<close> and \<open>0\<close> are falsy.\<close>

fun key_truthy :: "CacheKey \<Rightarrow> bool" where
  "key_truthy (KStr s) = (s \<noteq> [])"
| "key_truthy (KNum n) = (n \<noteq> 0)"

section \<open>The bounded cache (src/cache/lru.ts)\<close>

text \<open>
  \<open>#storage\<close> is a JavaScript \<open>Map\<close>, which keeps insertion order: an association list
  with \<open>AList.update\<close> (replace in place, else append) and \<open>AList.delete\<close>.
  \<open>#queue\<close> is the array of keys, oldest first.
\<close>

record 'v LruCache =
  storage :: "(CacheKey \<times> 'v) list"
  queue :: "CacheKey list"
  maxSize :: jsnum

text \<open>\<open>options.maxSize || Infinity\<close>: an absent, zero or NaN size becomes \<open>Infinity\<close>.\<close>

definition or_Infinity :: "jsnum option \<Rightarrow> jsnum" where
  "or_Infinity opt = (case opt of None \<Rightarrow> PosInf | Some n \<Rightarrow> if num_truthy n then n else PosInf)"

definition LruCache_new :: "jsnum option \<Rightarrow> 'v LruCache" where
  "LruCache_new opt_maxSize = \<lparr>storage = [], queue = [], maxSize = or_Infinity opt_maxSize\<rparr>"

text \<open>\<open>Array.prototype.indexOf\<close>: the first index of the element, or \<open>-1\<close>.\<close>

fun indexOf :: "'a list \<Rightarrow> 'a \<Rightarrow> int" where
  "indexOf [] x = -1"
| "indexOf (y # ys) x =
     (if y = x then 0 else (let i = indexOf ys x in if i > -1 then i + 1 else -1))"

text \<open>\<open>splice(idx, 1)\<close> for an index in range: drop that one element.\<close>

definition splice1 :: "int \<Rightarrow> 'a list \<Rightarrow> 'a list" where
  "splice1 idx xs = take (nat idx) xs @ drop (nat idx + 1) xs"

text \<open>\<open>shift()\<close>: remove and return the first element, \<open>undefined\<close> on an empty array.\<close>

fun shift :: "'a list \<Rightarrow> 'a option \<times> 'a list" where
  "shift [] = (None, [])"
| "shift (x # xs) = (Some x, xs)"

definition hit :: "CacheKey \<Rightarrow> 'v LruCache \<Rightarrow> 'v LruCache" where
  "hit key c =
     (let idx = indexOf (queue c) key in
      if idx > -1 then c\<lparr>queue := splice1 idx (queue c) @ [key]\<rparr>
      else
        (let c1 = c\<lparr>queue := queue c @ [key]\<rparr> in
         if num_less (maxSize c1) (Fin (of_nat (length (queue c1)))) then
           (case shift (queue c1) of
              (evictKey, q) \<Rightarrow>
                (let c2 = c1\<lparr>queue := q\<rparr> in
                 case evictKey of
                   None \<Rightarrow> c2
                 | Some k \<Rightarrow>
                     if key_truthy k then c2\<lparr>storage := AList.delete k (storage c2)\<rparr>
                     else c2))
         else c1))"

definition evict :: "CacheKey \<Rightarrow> 'v LruCache \<Rightarrow> 'v LruCache" where
  "evict key c =
     (let idx = indexOf (queue c) key in
      if idx > -1 then c\<lparr>queue := splice1 idx (queue c)\<rparr> else c)"

definition lru_has :: "'v LruCache \<Rightarrow> CacheKey \<Rightarrow> bool" where
  "lru_has c key = (map_of (storage c) key \<noteq> None)"

definition lru_get :: "CacheKey \<Rightarrow> 'v LruCache \<Rightarrow> 'v option \<times> 'v LruCache" where
  "lru_get key c =
     (let c1 = (if lru_has c key then hit key c else c) in (map_of (storage c1) key, c1))"

definition lru_set :: "CacheKey \<Rightarrow> 'v \<Rightarrow> 'v LruCache \<Rightarrow> 'v LruCache" where
  "lru_set key v c =
     (let c1 = hit key c in c1\<lparr>storage := AList.update key v (storage c1)\<rparr>)"

definition lru_delete :: "CacheKey \<Rightarrow> 'v LruCache \<Rightarrow> 'v LruCache" where
  "lru_delete key c =
     (let c1 = evict key c in c1\<lparr>storage := AList.delete key (storage c1)\<rparr>)"

definition lru_clear :: "'v LruCache \<Rightarrow> 'v LruCache" where
  "lru_clear c = c\<lparr>queue := [], storage := []\<rparr>"

section \<open>Weak references (src/weakref-generic.ts)\<close>

text \<open>
  A \<open>WeakRef\<close> is known by what \<open>deref()\<close> returns: the target while it is live,
  \<open>undefined\<close> (\<open>None\<close>) once it has been reclaimed.
\<close>

datatype 'a WeakRef = WeakRef (deref: "'a option")

definition makeWeakRef :: "'a \<Rightarrow> 'a WeakRef" where
  "makeWeakRef v = WeakRef (Some v)"

definition getRealRef :: "'a WeakRef \<Rightarrow> 'a option" where
  "getRealRef v = deref v"

text \<open>\<open>typeof v.deref()\<close>: a string, \<open>"undefined"\<close> or (the target is an object) \<open>"object"\<close>.\<close>

definition typeof_deref :: "'a option \<Rightarrow> string" where
  "typeof_deref t = (case t of None \<Rightarrow> ''undefined'' | Some _ \<Rightarrow> ''object'')"

text \<open>\<open>return typeof v.deref() === undefined\<close>: the string is compared with the value \<open>undefined\<close>.\<close>

definition isRealRefDead :: "'a WeakRef \<Rightarrow> bool" where
  "isRealRefDead v = strict_equals (JStr (typeof_deref (deref v))) JUndefined"

section \<open>The key resolver (\<open>toResolverKey\<close>, \<open>defaultResolver\<close>)\<close>

text \<open>
  \<open>String\<close> (the JavaScript builtin) and \<open>hash\<close> (the package hash-it) are not part of the
  repository: they are the parameters \<open>S\<close> and \<open>H\<close>.
\<close>

fun toResolverKey :: "(jsval \<Rightarrow> string) \<Rightarrow> (jsval \<Rightarrow> int) \<Rightarrow> jsval \<Rightarrow> CacheKey" where
  "toResolverKey S H (JArray [v]) = toResolverKey S H v"
| "toResolverKey S H v =
     (if typeof_js v \<noteq> ''object'' \<or> \<not> js_truthy v then KStr (S v) else KNum (H v))"

definition defaultResolver :: "jsval list \<Rightarrow> jsval" where
  "defaultResolver args = JArray args"

section \<open>The memoization engine (\<open>throttle\<close>)\<close>

text \<open>
  A cache item holds its key, its value and the two closures \<open>clear\<close> and \<open>ttl\<close>. Both
  closures share the variables \<open>key\<close> and \<open>timer\<close> of the call that created them; the
  item records that closure environment by its number \<open>item_cell\<close>.
\<close>

record CacheItem =
  item_key :: CacheKey
  item_value :: jsval
  item_cell :: nat

text \<open>The cache behind the interface \<open>ICache\<close>: a \<open>Map\<close> or an \<open>LruCache\<close>.\<close>

datatype cache = MapC "(CacheKey \<times> CacheItem) list" | LruC "CacheItem LruCache"

fun cache_has :: "cache \<Rightarrow> CacheKey \<Rightarrow> bool" where
  "cache_has (MapC m) k = (map_of m k \<noteq> None)"
| "cache_has (LruC c) k = lru_has c k"

fun cache_get :: "CacheKey \<Rightarrow> cache \<Rightarrow> CacheItem option \<times> cache" where
  "cache_get k (MapC m) = (map_of m k, MapC m)"
| "cache_get k (LruC c) = (case lru_get k c of (r, c') \<Rightarrow> (r, LruC c'))"

fun cache_set :: "CacheKey \<Rightarrow> CacheItem \<Rightarrow> cache \<Rightarrow> cache" where
  "cache_set k v (MapC m) = MapC (AList.update k v m)"
| "cache_set k v (LruC c) = LruC (lru_set k v c)"

fun cache_delete :: "CacheKey \<Rightarrow> cache \<Rightarrow> cache" where
  "cache_delete k (MapC m) = MapC (AList.delete k m)"
| "cache_delete k (LruC c) = LruC (lru_delete k c)"

fun cache_clear :: "cache \<Rightarrow> cache" where
  "cache_clear (MapC m) = MapC []"
| "cache_clear (LruC c) = LruC (lru_clear c)"

text \<open>A thrown value, or the \<open>TypeError\<close> of reading a property of \<open>undefined\<close>.\<close>

datatype exn = Thrown jsval | TypeError

text \<open>
  The \<open>onCached\<close> observer receives the item and can use what the item offers: call
  \<open>item.clear()\<close>, call \<open>item.ttl(newTimeout)\<close> with a number or \<open>false\<close>, or throw.
\<close>

datatype ttl_arg = TtlNum jsnum | TtlFalse

datatype item_call = CallClear | CallTtl ttl_arg | Throw jsval

record ThrottleOptions =
  opt_resolver :: "(jsval list \<Rightarrow> jsval) option"
  opt_cache :: "cache option"
  opt_onCached :: "(CacheItem \<Rightarrow> item_call list) option"
  opt_maxSize :: "jsnum option"
  opt_rejectFailedPromise :: "bool option"

text \<open>
  The arguments of \<open>throttle\<close>, with the two external functions. The callee sees the
  arguments and the list of the calls made to it so far, so it need not return the
  same value twice; it returns a value or throws.
\<close>

record throttled =
  js_String :: "jsval \<Rightarrow> string"
  hash_it :: "jsval \<Rightarrow> int"
  func :: "jsval list list \<Rightarrow> jsval list \<Rightarrow> exn + jsval"
  timeout :: "jsnum option"
  options :: ThrottleOptions

text \<open>
  The state of one throttled function: the cache it holds; whether the garbage
  collector has reclaimed that cache (possible only once the throttled function itself
  is unreachable, so \<open>execute\<close> never runs in such a state and \<open>cache\<close> is then what the
  cache held last); the pending timers, by closure environment, each with the key its
  \<open>clear\<close> closure holds and the delay Node arms it with; the next free environment number; the failure
  handlers attached to promises, each the \<open>clear\<close> of an item; the calls made to the
  callee.
\<close>

record engine =
  cache :: cache
  reclaimed :: bool
  timers :: "(nat \<times> CacheKey \<times> jsnum) list"
  next_cell :: nat
  handlers :: "(nat \<times> CacheItem) list"
  calls :: "jsval list list"

definition getCache :: "ThrottleOptions \<Rightarrow> cache" where
  "getCache opts =
     (case opt_cache opts of
        Some c \<Rightarrow> c
      | None \<Rightarrow>
          (case opt_maxSize opts of
             Some n \<Rightarrow> if num_less n PosInf then LruC (LruCache_new (Some n)) else MapC []
           | None \<Rightarrow> MapC []))"

definition throttle :: "ThrottleOptions \<Rightarrow> engine" where
  "throttle opts =
     \<lparr>cache = getCache opts, reclaimed = False, timers = [], next_cell = 0,
      handlers = [], calls = []\<rparr>"

definition cacheRef :: "engine \<Rightarrow> cache WeakRef" where
  "cacheRef st = WeakRef (if reclaimed st then None else Some (cache st))"

definition resolveKey :: "throttled \<Rightarrow> jsval list \<Rightarrow> CacheKey" where
  "resolveKey t args =
     toResolverKey (js_String t) (hash_it t)
       ((case opt_resolver (options t) of Some r \<Rightarrow> r | None \<Rightarrow> defaultResolver) args)"

text \<open>\<open>if (timer) { clearTimeout(timer); timer = null; }\<close>\<close>

definition cancelTimeout :: "nat \<Rightarrow> engine \<Rightarrow> engine" where
  "cancelTimeout cl st =
     (case map_of (timers st) cl of
        None \<Rightarrow> st
      | Some _ \<Rightarrow> st\<lparr>timers := AList.delete cl (timers st)\<rparr>)"

text \<open>\<open>realCache.delete(key)\<close>: a method call on \<open>undefined\<close> throws.\<close>

definition call_delete :: "cache option \<Rightarrow> CacheKey \<Rightarrow> exn + cache" where
  "call_delete target k =
     (case target of None \<Rightarrow> Inl TypeError | Some c \<Rightarrow> Inr (cache_delete k c))"

definition clear :: "CacheKey \<Rightarrow> nat \<Rightarrow> engine \<Rightarrow> exn option \<times> engine" where
  "clear k cl st =
     (let st1 = cancelTimeout cl st in
      if \<not> isRealRefDead (cacheRef st1) then
        (let realCache = getRealRef (cacheRef st1) in
         if realCache \<noteq> None then
           (case call_delete realCache k of
              Inl e \<Rightarrow> (Some e, st1)
            | Inr c \<Rightarrow> (None, st1\<lparr>cache := c\<rparr>))
         else (None, st1))
      else (None, st1))"

text \<open>
  \<open>setTimeout\<close> belongs to Node, not to the repository. It arms the timer with the
  delay it is given when that lies between 1 and \<open>2^31 - 1\<close>, and with 1 millisecond for
  every other number (\<open>if (!(after >= 1 && after <= TIMEOUT_MAX)) after = 1\<close>).
\<close>

definition setTimeout_delay :: "jsnum \<Rightarrow> jsnum" where
  "setTimeout_delay after =
     (if \<not> (num_ge after (Fin 1) \<and> num_ge (Fin 2147483647) after) then Fin 1 else after)"

definition applyTimeout :: "CacheKey \<Rightarrow> nat \<Rightarrow> ttl_arg \<Rightarrow> engine \<Rightarrow> engine" where
  "applyTimeout k cl newTimeout st =
     (let st1 = cancelTimeout cl st in
      case newTimeout of
        TtlFalse \<Rightarrow> st1
      | TtlNum n \<Rightarrow>
          if n = PosInf then st1
          else st1\<lparr>timers := AList.update cl (k, setTimeout_delay n) (timers st1)\<rparr>)"

text \<open>
  \<open>v && isFunction(v.then) && isFunction(v.catch)\<close>: the promise-like values are the
  values \<open>JPromise\<close>.
\<close>

definition isPromise :: "jsval \<Rightarrow> bool" where
  "isPromise v = (case v of JPromise _ \<Rightarrow> True | _ \<Rightarrow> False)"

text \<open>\<open>value.catch(item.clear)\<close> registers the item's \<open>clear\<close> on the promise.\<close>

definition rejectFailedPromise :: "CacheItem \<Rightarrow> engine \<Rightarrow> engine" where
  "rejectFailedPromise item st =
     (let v = item_value item in
      if \<not> isPromise v then st
      else (case v of
              JPromise p \<Rightarrow> st\<lparr>handlers := handlers st @ [(p, item)]\<rparr>
            | _ \<Rightarrow> st))"

fun run_calls :: "CacheItem \<Rightarrow> item_call list \<Rightarrow> engine \<Rightarrow> exn option \<times> engine" where
  "run_calls item [] st = (None, st)"
| "run_calls item (CallClear # cs) st =
     (case clear (item_key item) (item_cell item) st of
        (Some e, st') \<Rightarrow> (Some e, st')
      | (None, st') \<Rightarrow> run_calls item cs st')"
| "run_calls item (CallTtl a # cs) st =
     run_calls item cs (applyTimeout (item_key item) (item_cell item) a st)"
| "run_calls item (Throw v # cs) st = (Some (Thrown v), st)"

definition getOnCached :: "ThrottleOptions \<Rightarrow> CacheItem \<Rightarrow> engine \<Rightarrow> exn option \<times> engine" where
  "getOnCached opts item st =
     (if opt_rejectFailedPromise opts = Some False then
        (case opt_onCached opts of
           Some f \<Rightarrow> run_calls item (f item) st
         | None \<Rightarrow> (None, st))
      else
        (case opt_onCached opts of
           None \<Rightarrow> (None, rejectFailedPromise item st)
         | Some f \<Rightarrow> run_calls item (f item) (rejectFailedPromise item st)))"

text \<open>\<open>!timeout || timeout < 1\<close>\<close>

definition bypass :: "jsnum option \<Rightarrow> bool" where
  "bypass tmo = (case tmo of None \<Rightarrow> True | Some n \<Rightarrow> \<not> num_truthy n \<or> num_less n (Fin 1))"

text \<open>\<open>cache.get(key)!.value\<close>: a \<open>TypeError\<close> when the key is not there.\<close>

definition read_value :: "CacheKey \<Rightarrow> engine \<Rightarrow> (exn + jsval) \<times> engine" where
  "read_value k st =
     (case cache_get k (cache st) of
        (None, c) \<Rightarrow> (Inl TypeError, st\<lparr>cache := c\<rparr>)
      | (Some item, c) \<Rightarrow> (Inr (item_value item), st\<lparr>cache := c\<rparr>))"

text \<open>The throttled function itself.\<close>

definition execute :: "throttled \<Rightarrow> jsval list \<Rightarrow> engine \<Rightarrow> (exn + jsval) \<times> engine" where
  "execute t args st =
     (case timeout t of
        None \<Rightarrow> (func t (calls st) args, st\<lparr>calls := calls st @ [args]\<rparr>)
      | Some n \<Rightarrow>
          if \<not> num_truthy n \<or> num_less n (Fin 1) then
            (func t (calls st) args, st\<lparr>calls := calls st @ [args]\<rparr>)
          else
            (let k = resolveKey t args in
             if \<not> cache_has (cache st) k then
               (case func t (calls st) args of
                  Inl e \<Rightarrow> (Inl e, st\<lparr>calls := calls st @ [args]\<rparr>)
                | Inr v \<Rightarrow>
                    (let cl = next_cell st;
                         st1 = st\<lparr>calls := calls st @ [args], next_cell := Suc cl\<rparr>;
                         item = \<lparr>item_key = k, item_value = v, item_cell = cl\<rparr>;
                         st2 = st1\<lparr>cache := cache_set k item (cache st1)\<rparr>;
                         st3 = applyTimeout k cl (TtlNum n) st2
                     in case getOnCached (options t) item st3 of
                          (Some e, st4) \<Rightarrow> (Inl e, st4)
                        | (None, st4) \<Rightarrow> read_value k st4))
             else read_value k st))"

definition retrieveCachedValue :: "throttled \<Rightarrow> jsval list \<Rightarrow> engine \<Rightarrow> jsval option \<times> engine" where
  "retrieveCachedValue t args st =
     (case cache_get (resolveKey t args) (cache st) of
        (r, c) \<Rightarrow> (map_option item_value r, st\<lparr>cache := c\<rparr>))"

definition clearCache :: "throttled \<Rightarrow> jsval list \<Rightarrow> engine \<Rightarrow> engine" where
  "clearCache t args st =
     (if length args < 1 then st\<lparr>cache := cache_clear (cache st)\<rparr>
      else st\<lparr>cache := cache_delete (resolveKey t args) (cache st)\<rparr>)"

subsection \<open>What happens between calls\<close>

text \<open>A pending timer fires: its \<open>clear\<close> closure runs.\<close>

definition fire_timer :: "nat \<Rightarrow> engine \<Rightarrow> exn option \<times> engine" where
  "fire_timer cl st =
     (case map_of (timers st) cl of
        None \<Rightarrow> (None, st)
      | Some (k, d) \<Rightarrow> clear k cl st)"

text \<open>The garbage collector reclaims the cache.\<close>

definition reclaim :: "engine \<Rightarrow> engine" where
  "reclaim st = st\<lparr>reclaimed := True\<rparr>"

text \<open>
  A promise is rejected: every handler attached to it runs, each in its own job, so a
  handler that throws does not stop the next one; the first exception is reported.
\<close>

fun run_handlers :: "CacheItem list \<Rightarrow> engine \<Rightarrow> exn option \<times> engine" where
  "run_handlers [] st = (None, st)"
| "run_handlers (item # items) st =
     (case clear (item_key item) (item_cell item) st of
        (e, st') \<Rightarrow>
          (case run_handlers items st' of
             (e', st'') \<Rightarrow> (if e = None then e' else e, st'')))"

definition reject_promise :: "nat \<Rightarrow> engine \<Rightarrow> exn option \<times> engine" where
  "reject_promise p st =
     run_handlers (map snd (filter (\<lambda>h. fst h = p) (handlers st)))
       (st\<lparr>handlers := filter (\<lambda>h. fst h \<noteq> p) (handlers st)\<rparr>)"

text \<open>The garbage collector reclaims the target of a weak reference.\<close>

definition collect :: "'a WeakRef \<Rightarrow> 'a WeakRef" where
  "collect v = WeakRef None"

section \<open>Observations and runs\<close>

text \<open>
  What a cache holds, read without touching the recency order; the order of its keys
  (the queue of an \<open>LruCache\<close>, the insertion order of a \<open>Map\<close>).
\<close>

definition entries :: "cache \<Rightarrow> (CacheKey \<times> CacheItem) list" where
  "entries c = (case c of MapC m \<Rightarrow> m | LruC l \<Rightarrow> storage l)"

definition lookup :: "cache \<Rightarrow> CacheKey \<Rightarrow> CacheItem option" where
  "lookup c k = map_of (entries c) k"

definition recency :: "cache \<Rightarrow> CacheKey list" where
  "recency c = (case c of MapC m \<Rightarrow> map fst m | LruC l \<Rightarrow> queue l)"

text \<open>A sequence of \<open>set\<close> operations; a sequence of calls of the throttled function.\<close>

definition set_all :: "(CacheKey \<times> 'v) list \<Rightarrow> 'v LruCache \<Rightarrow> 'v LruCache" where
  "set_all kvs c = fold (\<lambda>(k, v). lru_set k v) kvs c"

definition run :: "throttled \<Rightarrow> jsval list list \<Rightarrow> engine \<Rightarrow> engine" where
  "run t argss st = fold (\<lambda>args s. snd (execute t args s)) argss st"

text \<open>
  The cache can hold an entry: it is a \<open>Map\<close>, or an \<open>LruCache\<close> whose size is not below
  1 (a size that is zero, NaN or absent has become \<open>Infinity\<close>).
\<close>

definition room_for_one :: "cache \<Rightarrow> bool" where
  "room_for_one c = (case c of MapC m \<Rightarrow> True | LruC l \<Rightarrow> \<not> num_less (maxSize l) (Fin 1))"

text \<open>
  What the configured observer does with an item (nothing when there is none). It
  only calls \<open>ttl\<close>; it calls \<open>clear\<close> or \<open>ttl\<close> before it returns or throws.
\<close>

definition observer_calls :: "ThrottleOptions \<Rightarrow> CacheItem \<Rightarrow> item_call list" where
  "observer_calls opts item = (case opt_onCached opts of None \<Rightarrow> [] | Some f \<Rightarrow> f item)"

fun only_ttl :: "item_call list \<Rightarrow> bool" where
  "only_ttl [] = True"
| "only_ttl (CallTtl a # cs) = only_ttl cs"
| "only_ttl (CallClear # cs) = False"
| "only_ttl (Throw v # cs) = False"




section \<open>Example inputs\<close>

text \<open>
  \<open>String\<close> on strings, \<open>undefined\<close>, \<open>null\<close> and booleans, the only values the examples
  turn into keys.
\<close>

definition example_String :: "jsval \<Rightarrow> string" where
  "example_String v =
     (case v of
        JStr s \<Rightarrow> s
      | JUndefined \<Rightarrow> ''undefined''
      | JNull \<Rightarrow> ''null''
      | JBool b \<Rightarrow> (if b then ''true'' else ''false'')
      | _ \<Rightarrow> ''[other]'')"

definition no_options :: ThrottleOptions where
  "no_options =
     \<lparr>opt_resolver = None, opt_cache = None, opt_onCached = None, opt_maxSize = None,
      opt_rejectFailedPromise = None\<rparr>"

text \<open>A callee that returns the number of calls made before, one that always throws.\<close>

definition counting :: "jsval list list \<Rightarrow> jsval list \<Rightarrow> exn + jsval" where
  "counting history args = Inr (JNum (Fin (of_nat (length history))))"

definition failing :: "jsval list list \<Rightarrow> jsval list \<Rightarrow> exn + jsval" where
  "failing history args = Inl (Thrown (JStr ''boom''))"

definition example ::
  "(jsval list list \<Rightarrow> jsval list \<Rightarrow> exn + jsval) \<Rightarrow> jsnum option \<Rightarrow> ThrottleOptions \<Rightarrow> throttled"
where
  "example f tmo opts =
     \<lparr>js_String = example_String, hash_it = (\<lambda>v. 7), func = f, timeout = tmo, options = opts\<rparr>"

text \<open>The state after \<open>throttle(counting, 1000)("a")\<close>: one entry, its timer pending.\<close>

definition example_pending :: engine where
  "example_pending =
     snd (execute (example counting (Some (Fin 1000)) no_options) [JStr ''a'']
            (throttle no_options))"

text \<open>Options asking for a bounded cache; the state after \<open>f("a"); f("b")\<close> with \<open>maxSize: 2\<close>.\<close>

definition lru_options :: "jsnum \<Rightarrow> ThrottleOptions" where
  "lru_options n = no_options\<lparr>opt_maxSize := Some n\<rparr>"

definition example_two :: engine where
  "example_two =
     run (example counting (Some (Fin 1000)) (lru_options (Fin 2))) [[JStr ''a''], [JStr ''b'']]
       (throttle (lru_options (Fin 2)))"

text \<open>
  A callee that returns a new promise at each call; options that switch the failure
  handler off; the state after \<open>throttle(promising, 1000)("a")\<close>.
\<close>

definition promising :: "jsval list list \<Rightarrow> jsval list \<Rightarrow> exn + jsval" where
  "promising history args = Inr (JPromise (length history))"

definition keep_failed :: ThrottleOptions where
  "keep_failed = no_options\<lparr>opt_rejectFailedPromise := Some False\<rparr>"

definition example_promise :: engine where
  "example_promise =
     snd (execute (example promising (Some (Fin 1000)) no_options) [JStr ''a'']
            (throttle no_options))"

text \<open>
  Observers: one that clears the item it is given, one that throws, and one that calls
  \<open>ttl(false)\<close> on every item but the first.
\<close>

definition clearing :: ThrottleOptions where
  "clearing = no_options\<lparr>opt_onCached := Some (\<lambda>item. [CallClear])\<rparr>"

definition throwing :: ThrottleOptions where
  "throwing = no_options\<lparr>opt_onCached := Some (\<lambda>item. [Throw (JStr ''no'')])\<rparr>"



section \<open>Properties\<close>

subsection \<open>Evaluating the examples\<close>

lemmas example_defs =
  example_def no_options_def counting_def failing_def example_String_def

lemmas engine_defs =
  execute_def throttle_def getCache_def resolveKey_def defaultResolver_def
  applyTimeout_def setTimeout_delay_def cancelTimeout_def getOnCached_def
  rejectFailedPromise_def isPromise_def read_value_def Let_def

lemma example_pending_eq:
  "example_pending =
     \<lparr>cache = MapC [(KStr ''a'', \<lparr>item_key = KStr ''a'', item_value = JNum (Fin 0), item_cell = 0\<rparr>)],
      reclaimed = False, timers = [(0, KStr ''a'', Fin 1000)], next_cell = 1,
      handlers = [], calls = [[JStr ''a'']]\<rparr>"
  by (simp add: example_pending_def example_defs engine_defs)

subsection \<open>Weak references\<close>

lemma isRealRefDead_False: "isRealRefDead r = False"
  by (simp add: isRealRefDead_def strict_equals_def)

text \<open>
  C4. \<open>isRealRefDead\<close> should return true exactly when \<open>getRealRef\<close> returns absent. On a
  reference whose target has been reclaimed \<open>getRealRef\<close> returns absent, and
  \<open>isRealRefDead\<close> returns false: it compares the string \<open>typeof v.deref()\<close> with the
  value \<open>undefined\<close>.
\<close>

theorem isRealRefDead_reclaimed:
  "getRealRef (collect (makeWeakRef c)) = None \<and> isRealRefDead (collect (makeWeakRef c)) = False"
  by (simp add: getRealRef_def collect_def isRealRefDead_def strict_equals_def typeof_deref_def)

subsection \<open>The key resolver\<close>

lemma toResolverKey_primitive:
  "typeof_js v \<noteq> ''object'' \<or> \<not> js_truthy v \<Longrightarrow> toResolverKey S H v = KStr (S v)"
  by (cases v) auto

lemma toResolverKey_composite:
  assumes "typeof_js v = ''object''" and "js_truthy v" and "\<forall>x. v \<noteq> JArray [x]"
  shows "toResolverKey S H v = KNum (H v)"
proof (cases v)
  case (JArray xs)
  show ?thesis
  proof (cases xs)
    case Nil
    with JArray show ?thesis by simp
  next
    case (Cons y ys)
    with JArray assms(3) show ?thesis by (cases ys) simp_all
  qed
qed (use assms in simp_all)

text \<open>
  C5. A one-element array resolves to the key of its element, so with the default
  resolver the call \<open>f(a)\<close> resolves to the key of \<open>a\<close>. A value that is not an object
  (\<open>typeof value != "object" || !value\<close>) resolves to its string; every other value,
  unless it is a one-element array, resolves to its hash.
\<close>

theorem toResolverKey_single_element:
  "toResolverKey S H (JArray [a]) = toResolverKey S H a \<and>
   (opt_resolver (options t) = None \<longrightarrow>
      resolveKey t [a] = toResolverKey (js_String t) (hash_it t) a) \<and>
   (typeof_js a \<noteq> ''object'' \<or> \<not> js_truthy a \<longrightarrow>
      toResolverKey S H (JArray [a]) = KStr (S a)) \<and>
   (typeof_js v = ''object'' \<and> js_truthy v \<and> (\<forall>x. v \<noteq> JArray [x]) \<longrightarrow>
      toResolverKey S H v = KNum (H v))"
  by (simp add: resolveKey_def defaultResolver_def toResolverKey_primitive
      toResolverKey_composite)

theorem toResolverKey_single_element_witness:
  "opt_resolver (options (example counting (Some (Fin 1000)) no_options)) = None \<and>
   typeof_js (JStr ''x'') = ''string'' \<and>
   (typeof_js (JObject [(''id'', JNull)]) = ''object'' \<and> js_truthy (JObject [(''id'', JNull)]) \<and>
      (\<forall>x. JObject [(''id'', JNull)] \<noteq> JArray [x])) \<and>
   toResolverKey example_String (\<lambda>v. 7) (JArray [JStr ''x'']) = KStr ''x'' \<and>
   resolveKey (example counting (Some (Fin 1000)) no_options) [JStr ''x''] = KStr ''x'' \<and>
   toResolverKey example_String (\<lambda>v. 7) (JObject [(''id'', JNull)]) = KNum 7"
  using toResolverKey_single_element
    [of example_String "\<lambda>v. 7" "JStr ''x''" "example counting (Some (Fin 1000)) no_options"
        "JObject [(''id'', JNull)]"]
  by (simp add: example_defs)

subsection \<open>Timers and the reclaimed cache\<close>

lemma cancelTimeout_cache [simp]:
  "cache (cancelTimeout cl st) = cache st" "reclaimed (cancelTimeout cl st) = reclaimed st"
  by (simp_all add: cancelTimeout_def split: option.splits)

text \<open>
  C9. When the weak reference to the cache no longer resolves, a timer that fires does
  not throw and leaves the cache as it was; the reference still does not resolve.
\<close>

theorem timer_after_reclaim:
  "getRealRef (cacheRef st) = None \<Longrightarrow>
   fst (fire_timer cl st) = None \<and> cache (snd (fire_timer cl st)) = cache st \<and>
   getRealRef (cacheRef (snd (fire_timer cl st))) = None"
  by (simp add: fire_timer_def clear_def Let_def cacheRef_def getRealRef_def
      split: if_splits option.splits)

theorem timer_after_reclaim_witness:
  "getRealRef (cacheRef (reclaim example_pending)) = None \<and>
   map_of (timers (reclaim example_pending)) 0 = Some (KStr ''a'', Fin 1000) \<and>
   fst (fire_timer 0 (reclaim example_pending)) = None \<and>
   cache (snd (fire_timer 0 (reclaim example_pending))) = cache (reclaim example_pending) \<and>
   getRealRef (cacheRef (snd (fire_timer 0 (reclaim example_pending)))) = None"
proof -
  have h: "getRealRef (cacheRef (reclaim example_pending)) = None"
    by (simp add: getRealRef_def cacheRef_def reclaim_def)
  have p: "map_of (timers (reclaim example_pending)) 0 = Some (KStr ''a'', Fin 1000)"
    by (simp add: example_pending_eq reclaim_def)
  show ?thesis
    using h p timer_after_reclaim [OF h, of 0] by blast
qed

subsection \<open>A callee that throws\<close>

text \<open>
  C6. When the callee throws on a call whose key is not cached, the throttled function
  throws the same value, and the state is what it was but for the record of the call:
  no entry, no timer and no handler is added, and the cache is unchanged.
\<close>

theorem execute_callee_throws:
  assumes "func t (calls st) args = Inl e"
    and "\<not> cache_has (cache st) (resolveKey t args)"
  shows "execute t args st = (Inl e, st\<lparr>calls := calls st @ [args]\<rparr>) \<and>
         cache (snd (execute t args st)) = cache st"
  using assms by (simp add: execute_def Let_def split: option.splits)

theorem execute_callee_throws_witness:
  "func (example failing (Some (Fin 1000)) no_options) (calls example_pending) [JStr ''b'']
     = Inl (Thrown (JStr ''boom'')) \<and>
   \<not> cache_has (cache example_pending)
       (resolveKey (example failing (Some (Fin 1000)) no_options) [JStr ''b'']) \<and>
   execute (example failing (Some (Fin 1000)) no_options) [JStr ''b''] example_pending
     = (Inl (Thrown (JStr ''boom'')), example_pending\<lparr>calls := [[JStr ''a''], [JStr ''b'']]\<rparr>) \<and>
   cache_has (cache (snd (execute (example failing (Some (Fin 1000)) no_options) [JStr ''b'']
     example_pending))) (KStr ''a'')"
proof -
  have h1: "func (example failing (Some (Fin 1000)) no_options) (calls example_pending) [JStr ''b'']
     = Inl (Thrown (JStr ''boom''))"
    by (simp add: example_defs)
  have h2: "\<not> cache_has (cache example_pending)
       (resolveKey (example failing (Some (Fin 1000)) no_options) [JStr ''b''])"
    by (simp add: example_pending_eq example_defs resolveKey_def defaultResolver_def)
  show ?thesis
    using h1 h2 execute_callee_throws [OF h1 h2] by (simp add: example_pending_eq)
qed

subsection \<open>The bounded cache\<close>

lemma indexOf_ge: "indexOf xs x \<ge> -1"
  by (induction xs) (auto simp: Let_def)

lemma indexOf_mem: "(indexOf xs x > -1) = (x \<in> set xs)"
  by (induction xs) (auto simp: Let_def)

lemma indexOf_notin: "x \<notin> set xs \<Longrightarrow> indexOf xs x = -1"
  using indexOf_ge [of xs x] indexOf_mem [of xs x] by linarith

lemma splice1_indexOf: "x \<in> set xs \<Longrightarrow> splice1 (indexOf xs x) xs = remove1 x xs"
proof (induction xs)
  case Nil
  then show ?case by simp
next
  case (Cons y ys)
  show ?case
  proof (cases "y = x")
    case True
    then show ?thesis by (simp add: splice1_def)
  next
    case False
    with Cons.prems have m: "x \<in> set ys" by simp
    then have pos: "indexOf ys x > -1" by (simp add: indexOf_mem)
    then have "nat (indexOf ys x + 1) = Suc (nat (indexOf ys x))" by linarith
    with False Cons.IH [OF m] pos show ?thesis
      by (simp add: splice1_def Let_def)
  qed
qed

lemma hit_known: "key \<in> set (queue c) \<Longrightarrow> hit key c = c\<lparr>queue := remove1 key (queue c) @ [key]\<rparr>"
  by (simp add: hit_def Let_def indexOf_mem splice1_indexOf)

lemma evict_eq: "evict key c = c\<lparr>queue := remove1 key (queue c)\<rparr>"
  by (cases "key \<in> set (queue c)") (simp_all add: evict_def Let_def indexOf_mem splice1_indexOf indexOf_notin remove1_idem)

lemma hit_unbounded: "maxSize c = PosInf \<Longrightarrow> storage (hit k c) = storage c \<and> maxSize (hit k c) = PosInf"
  by (simp add: hit_def Let_def)

lemma lru_get_unbounded: "maxSize c = PosInf \<Longrightarrow> fst (lru_get k c) = map_of (storage c) k \<and> storage (snd (lru_get k c)) = storage c \<and> maxSize (snd (lru_get k c)) = PosInf"
  by (simp add: lru_get_def Let_def hit_unbounded)

lemma lru_set_unbounded: "maxSize c = PosInf \<Longrightarrow> storage (lru_set k v c) = AList.update k v (storage c) \<and> maxSize (lru_set k v c) = PosInf"
  by (simp add: lru_set_def Let_def hit_unbounded)

lemma set_all_snoc: "set_all (kvs @ [(k, v)]) c = lru_set k v (set_all kvs c)"
  by (simp add: set_all_def)

lemma set_all_maxSize: "maxSize c = PosInf \<Longrightarrow> maxSize (set_all kvs c) = PosInf"
  by (induction kvs rule: rev_induct) (simp_all add: set_all_def lru_set_unbounded split: prod.splits)

lemma set_all_lookup:
  assumes "maxSize c = PosInf" and "distinct (map fst kvs)" and "(k, v) \<in> set kvs"
  shows "map_of (storage (set_all kvs c)) k = Some v"
  using assms(2,3)
proof (induction kvs rule: rev_induct)
  case Nil
  then show ?case by simp
next
  case (snoc kv kvs)
  obtain k' v' where kv: "kv = (k', v')" by (cases kv)
  have m: "maxSize (set_all kvs c) = PosInf"
    using assms(1) by (rule set_all_maxSize)
  have st: "storage (set_all (kvs @ [(k', v')]) c) = AList.update k' v' (storage (set_all kvs c))"
    by (simp add: set_all_snoc lru_set_unbounded [OF m])
  show ?case
  proof (cases "(k, v) = kv")
    case True
    then show ?thesis by (simp add: kv st update_conv')
  next
    case False
    with snoc.prems have mem: "(k, v) \<in> set kvs" by simp
    with snoc.prems(1) have "k \<noteq> k'" by (force simp: kv)
    moreover from snoc.prems(1) have "distinct (map fst kvs)" by simp
    ultimately show ?thesis using snoc.IH mem by (simp add: kv st update_conv')
  qed
qed

lemma maxSize_zero: "maxSize (LruCache_new (Some (Fin 0)) :: 'v LruCache) = PosInf"
  by (simp add: LruCache_new_def or_Infinity_def)


lemma cache_has_lookup: "cache_has c k = (lookup c k \<noteq> None)"
  by (cases c) (simp_all add: lookup_def entries_def lru_has_def)

lemma hit_storage:
  "storage (hit k c) = storage c \<or> (\<exists>e. storage (hit k c) = AList.delete e (storage c))"
  by (auto simp: hit_def Let_def split: prod.splits option.splits)

lemma hit_lookup:
  "map_of (storage (hit k c)) k' = None \<or> map_of (storage (hit k c)) k' = map_of (storage c) k'"
  using hit_storage [of k c] by (auto simp: delete_conv')

lemma lru_get_result: "lru_get k c = (r, c') \<Longrightarrow> r = map_of (storage c') k"
  by (auto simp: lru_get_def Let_def)

lemma lru_get_lookup:
  "lru_get k c = (r, c') \<Longrightarrow> map_of (storage c') k' = None \<or> map_of (storage c') k' = map_of (storage c) k'"
  using hit_lookup [of k c k'] by (auto simp: lru_get_def Let_def split: if_splits)

lemma cache_get_result: "cache_get k c = (r, c') \<Longrightarrow> r = lookup c' k"
  by (cases c) (auto simp: lookup_def entries_def dest: lru_get_result split: prod.splits)

lemma cache_get_lookup:
  "cache_get k c = (r, c') \<Longrightarrow> lookup c' k' = None \<or> lookup c' k' = lookup c k'"
  by (cases c) (auto simp: lookup_def entries_def dest: lru_get_lookup [where k'=k'] split: prod.splits)

lemma lookup_cache_set: "lookup (cache_set k item c) k = Some item"
  by (cases c) (simp_all add: lookup_def entries_def lru_set_def Let_def update_conv')

lemma lookup_cache_delete: "lookup (cache_delete k c) k' = (if k' = k then None else lookup c k')"
  by (cases c) (simp_all add: lookup_def entries_def lru_delete_def Let_def delete_conv' evict_def)

lemma lookup_cache_clear: "lookup (cache_clear c) k = None"
  by (cases c) (simp_all add: lookup_def entries_def lru_clear_def)

lemma hit_twice:
  assumes "map_of (storage (hit k c)) k = Some v"
  shows "storage (hit k (hit k c)) = storage (hit k c)"
proof (cases "k \<in> set (queue c)")
  case True
  then have "hit k c = c\<lparr>queue := remove1 k (queue c) @ [k]\<rparr>" by (rule hit_known)
  moreover have "k \<in> set (queue (c\<lparr>queue := remove1 k (queue c) @ [k]\<rparr>))" by simp
  ultimately show ?thesis by (simp add: hit_known)
next
  case False
  then have idx: "\<not> indexOf (queue c) k > -1" by (simp add: indexOf_mem)
  show ?thesis
  proof (cases "num_less (maxSize c) (Fin (of_nat (Suc (length (queue c)))))")
    case over: True
    show ?thesis
    proof (cases "queue c")
      case Nil
      with idx over assms have "\<not> key_truthy k"
        by (auto simp: hit_def Let_def delete_conv')
      with idx over Nil show ?thesis by (simp add: hit_def Let_def)
    next
      case (Cons q qs)
      with idx over have "k \<in> set (queue (hit k c))"
        by (simp add: hit_def Let_def)
      then show ?thesis by (simp add: hit_known)
    qed
  next
    case under: False
    with idx have "k \<in> set (queue (hit k c))" by (simp add: hit_def Let_def)
    then show ?thesis by (simp add: hit_known)
  qed
qed

lemma lru_get_twice:
  assumes "lru_get k c = (Some v, c1)"
  shows "fst (lru_get k c1) = Some v"
proof -
  from assms have has: "lru_has c k"
    by (auto simp: lru_get_def Let_def lru_has_def split: if_splits)
  with assms have c1: "c1 = hit k c" and v: "map_of (storage (hit k c)) k = Some v"
    by (auto simp: lru_get_def Let_def)
  then have "lru_has c1 k" by (simp add: lru_has_def)
  then show ?thesis using hit_twice [OF v] v by (simp add: lru_get_def Let_def c1)
qed

lemma cache_get_twice:
  assumes "cache_get k c = (Some i, c1)"
  shows "fst (cache_get k c1) = Some i"
proof (cases c)
  case (MapC m)
  with assms show ?thesis by auto
next
  case (LruC l)
  with assms obtain l1 where "lru_get k l = (Some i, l1)" and "c1 = LruC l1"
    by (auto split: prod.splits)
  then show ?thesis using lru_get_twice [of k l i l1] by (auto split: prod.splits)
qed

subsection \<open>What each step of the engine leaves unchanged\<close>

lemma cancelTimeout_frame [simp]:
  "handlers (cancelTimeout cl st) = handlers st" "calls (cancelTimeout cl st) = calls st"
  "next_cell (cancelTimeout cl st) = next_cell st"
  by (simp_all add: cancelTimeout_def split: option.splits)

lemma cancelTimeout_timer [simp]: "map_of (timers (cancelTimeout cl st)) cl = None"
  by (simp add: cancelTimeout_def delete_conv' split: option.splits)

lemma applyTimeout_frame [simp]:
  "cache (applyTimeout k cl a st) = cache st" "reclaimed (applyTimeout k cl a st) = reclaimed st"
  "handlers (applyTimeout k cl a st) = handlers st" "calls (applyTimeout k cl a st) = calls st"
  "next_cell (applyTimeout k cl a st) = next_cell st"
  by (simp_all add: applyTimeout_def Let_def split: ttl_arg.splits)


lemma rejectFailedPromise_frame [simp]:
  "cache (rejectFailedPromise item st) = cache st"
  "reclaimed (rejectFailedPromise item st) = reclaimed st"
  "timers (rejectFailedPromise item st) = timers st"
  "calls (rejectFailedPromise item st) = calls st"
  "next_cell (rejectFailedPromise item st) = next_cell st"
  by (simp_all add: rejectFailedPromise_def Let_def split: jsval.splits)

lemma rejectFailedPromise_handlers:
  "handlers (rejectFailedPromise item st) =
     (case item_value item of JPromise p \<Rightarrow> handlers st @ [(p, item)] | _ \<Rightarrow> handlers st)"
  by (simp add: rejectFailedPromise_def isPromise_def Let_def split: jsval.splits)

lemma clear_frame [simp]:
  "fst (clear k cl st) = None" "handlers (snd (clear k cl st)) = handlers st"
  "calls (snd (clear k cl st)) = calls st" "reclaimed (snd (clear k cl st)) = reclaimed st"
  "next_cell (snd (clear k cl st)) = next_cell st"
  by (simp_all add: clear_def Let_def call_delete_def getRealRef_def cacheRef_def isRealRefDead_False)

lemma clear_cache:
  "cache (snd (clear k cl st)) = (if reclaimed st then cache st else cache_delete k (cache st))"
  by (simp add: clear_def Let_def call_delete_def getRealRef_def cacheRef_def isRealRefDead_False)

lemma clear_lookup:
  "lookup (cache (snd (clear k cl st))) k' = None \<or>
   lookup (cache (snd (clear k cl st))) k' = lookup (cache st) k'"
  by (simp add: clear_cache lookup_cache_delete)

lemma run_calls_clear:
  "run_calls item (CallClear # cs) st =
     run_calls item cs (snd (clear (item_key item) (item_cell item) st))"
  using clear_frame(1) [of "item_key item" "item_cell item" st]
  by (cases "clear (item_key item) (item_cell item) st") simp

lemma run_calls_frame [simp]:
  "handlers (snd (run_calls item cs st)) = handlers st \<and>
   calls (snd (run_calls item cs st)) = calls st \<and>
   next_cell (snd (run_calls item cs st)) = next_cell st"
proof (induction cs arbitrary: st)
  case Nil
  show ?case by simp
next
  case (Cons a cs)
  show ?case
  proof (cases a)
    case CallClear
    then show ?thesis using Cons.IH by (simp add: run_calls_clear del: run_calls.simps(2))
  next
    case (CallTtl x)
    then show ?thesis using Cons.IH by simp
  next
    case (Throw x)
    then show ?thesis by simp
  qed
qed

lemma run_calls_lookup:
  "lookup (cache (snd (run_calls item cs st))) k = None \<or>
   lookup (cache (snd (run_calls item cs st))) k = lookup (cache st) k"
proof (induction cs arbitrary: st)
  case Nil
  show ?case by simp
next
  case (Cons a cs)
  show ?case
  proof (cases a)
    case CallClear
    then show ?thesis
      using Cons.IH [of "snd (clear (item_key item) (item_cell item) st)"]
        clear_lookup [of "item_key item" "item_cell item" st k]
      by (auto simp: run_calls_clear simp del: run_calls.simps(2))
  next
    case (CallTtl x)
    then show ?thesis
      using Cons.IH [of "applyTimeout (item_key item) (item_cell item) x st"] by simp
  next
    case (Throw x)
    then show ?thesis by simp
  qed
qed

lemma getOnCached_frame [simp]:
  "calls (snd (getOnCached opts item st)) = calls st"
  "next_cell (snd (getOnCached opts item st)) = next_cell st"
  by (simp_all add: getOnCached_def split: option.splits)

lemma getOnCached_lookup:
  "lookup (cache (snd (getOnCached opts item st))) k = None \<or>
   lookup (cache (snd (getOnCached opts item st))) k = lookup (cache st) k"
  using run_calls_lookup [of item _ st k] run_calls_lookup [of item _ "rejectFailedPromise item st" k]
  by (auto simp: getOnCached_def split: option.splits)

lemma getOnCached_handlers:
  "handlers (snd (getOnCached opts item st)) =
     (if opt_rejectFailedPromise opts = Some False then handlers st
      else handlers (rejectFailedPromise item st))"
  by (simp add: getOnCached_def split: option.splits)

lemma getOnCached_no_observer:
  "opt_onCached opts = None \<Longrightarrow>
   fst (getOnCached opts item st) = None \<and>
   cache (snd (getOnCached opts item st)) = cache st \<and>
   timers (snd (getOnCached opts item st)) = timers st"
  by (simp add: getOnCached_def)

lemma read_value_frame [simp]:
  "calls (snd (read_value k st)) = calls st" "timers (snd (read_value k st)) = timers st"
  "handlers (snd (read_value k st)) = handlers st" "next_cell (snd (read_value k st)) = next_cell st"
  by (simp_all add: read_value_def split: prod.splits option.splits)

lemma read_value_Inr:
  assumes "read_value k st = (Inr v, st')"
  shows "\<exists>i. lookup (cache st) k = Some i \<and> lookup (cache st') k = Some i \<and> item_value i = v"
proof -
  from assms obtain i c where g: "cache_get k (cache st) = (Some i, c)" and v: "item_value i = v"
    and st': "st' = st\<lparr>cache := c\<rparr>"
    by (auto simp: read_value_def split: prod.splits option.splits)
  from cache_get_result [OF g] have "lookup c k = Some i" by simp
  moreover from cache_get_lookup [OF g, of k] this have "lookup (cache st) k = Some i" by auto
  ultimately show ?thesis using v st' by simp
qed

lemma read_value_twice:
  assumes "read_value k st = (Inr v, st')"
  shows "fst (read_value k st') = Inr v"
proof -
  from assms obtain i c where g: "cache_get k (cache st) = (Some i, c)" and v: "item_value i = v"
    and st': "st' = st\<lparr>cache := c\<rparr>"
    by (auto simp: read_value_def split: prod.splits option.splits)
  from cache_get_twice [OF g] show ?thesis
    by (cases "cache_get k c") (simp add: read_value_def st' v)
qed

subsection \<open>Calls of the throttled function\<close>


lemma execute_bypass:
  "bypass (timeout t) \<Longrightarrow> execute t args st = (func t (calls st) args, st\<lparr>calls := calls st @ [args]\<rparr>)"
  by (auto simp: execute_def bypass_def split: option.splits)

lemma execute_hit:
  "\<not> bypass (timeout t) \<Longrightarrow> cache_has (cache st) (resolveKey t args) \<Longrightarrow>
   execute t args st = read_value (resolveKey t args) st"
  by (auto simp: execute_def bypass_def Let_def split: option.splits)

lemma execute_miss:
  assumes "timeout t = Some n" and "\<not> bypass (timeout t)"
    and "\<not> cache_has (cache st) (resolveKey t args)"
    and "func t (calls st) args = Inr v"
  shows "execute t args st =
     (let k = resolveKey t args; cl = next_cell st;
          item = \<lparr>item_key = k, item_value = v, item_cell = cl\<rparr>;
          st3 = applyTimeout k cl (TtlNum n)
                  (st\<lparr>calls := calls st @ [args], next_cell := Suc cl,
                      cache := cache_set k item (cache st)\<rparr>)
      in case getOnCached (options t) item st3 of
           (Some e, st4) \<Rightarrow> (Inl e, st4)
         | (None, st4) \<Rightarrow> read_value k st4)"
  using assms by (simp add: execute_def bypass_def Let_def)

lemma second_call_after_return:
  assumes nb: "\<not> bypass (timeout t)"
    and first: "execute t args st = (Inr v, st1)"
    and same: "resolveKey t args' = resolveKey t args"
  shows "fst (execute t args' st1) = Inr v \<and>
         calls (snd (execute t args' st1)) = calls st1 \<and>
         calls st1 = (if cache_has (cache st) (resolveKey t args) then calls st else calls st @ [args])"
proof -
  let ?k = "resolveKey t args"
  from nb obtain n where n: "timeout t = Some n" by (auto simp: bypass_def split: option.splits)
  have "\<exists>sx. read_value ?k sx = (Inr v, st1) \<and>
          calls sx = (if cache_has (cache st) ?k then calls st else calls st @ [args])"
  proof (cases "cache_has (cache st) ?k")
    case True
    with nb first show ?thesis by (auto simp: execute_hit)
  next
    case False
    show ?thesis
    proof (cases "func t (calls st) args")
      case (Inl e)
      with n nb False first show ?thesis by (simp add: execute_def bypass_def Let_def)
    next
      case (Inr v0)
      let ?item = "\<lparr>item_key = ?k, item_value = v0, item_cell = next_cell st\<rparr>"
      let ?st3 = "applyTimeout ?k (next_cell st) (TtlNum n)
                  (st\<lparr>calls := calls st @ [args], next_cell := Suc (next_cell st),
                      cache := cache_set ?k ?item (cache st)\<rparr>)"
      obtain e st4 where g: "getOnCached (options t) ?item ?st3 = (e, st4)"
        by (cases "getOnCached (options t) ?item ?st3")
      from first have "e = None \<and> read_value ?k st4 = (Inr v, st1)"
        by (cases e) (simp_all add: execute_miss [OF n nb False Inr] Let_def g)
      moreover have "calls st4 = calls st @ [args]"
        using getOnCached_frame(1) [of "options t" ?item ?st3] by (simp add: g)
      ultimately show ?thesis using False by auto
    qed
  qed
  then obtain sx where rv: "read_value ?k sx = (Inr v, st1)"
    and cs: "calls sx = (if cache_has (cache st) ?k then calls st else calls st @ [args])"
    by blast
  from read_value_Inr [OF rv] have has: "cache_has (cache st1) ?k"
    by (auto simp: cache_has_lookup)
  have c1: "calls st1 = calls sx"
    using read_value_frame(1) [of ?k sx] by (simp add: rv)
  have e2: "execute t args' st1 = read_value ?k st1"
    using execute_hit [OF nb, of st1 args'] has by (simp add: same)
  show ?thesis
    using read_value_twice [OF rv] c1 cs by (simp add: e2)
qed


lemma execute_miss_value:
  assumes nb: "\<not> bypass (timeout t)"
    and miss: "\<not> cache_has (cache st) (resolveKey t args)"
    and ok: "func t (calls st) args = Inr v"
    and ret: "fst (execute t args st) = Inr v'"
  shows "v' = v \<and>
         lookup (cache (snd (execute t args st))) (resolveKey t args) =
           Some \<lparr>item_key = resolveKey t args, item_value = v, item_cell = next_cell st\<rparr>"
proof -
  let ?k = "resolveKey t args"
  from nb obtain n where n: "timeout t = Some n" by (auto simp: bypass_def split: option.splits)
  let ?item = "\<lparr>item_key = ?k, item_value = v, item_cell = next_cell st\<rparr>"
  let ?st3 = "applyTimeout ?k (next_cell st) (TtlNum n)
                (st\<lparr>calls := calls st @ [args], next_cell := Suc (next_cell st),
                    cache := cache_set ?k ?item (cache st)\<rparr>)"
  obtain e st4 where g: "getOnCached (options t) ?item ?st3 = (e, st4)"
    by (cases "getOnCached (options t) ?item ?st3")
  from ret have e: "e = None" and ex: "execute t args st = read_value ?k st4"
    by (cases e; simp add: execute_miss [OF n nb miss ok] Let_def g)+
  obtain st' where rv: "read_value ?k st4 = (Inr v', st')"
    using ret ex by (cases "read_value ?k st4") simp
  from read_value_Inr [OF rv] obtain i where i: "lookup (cache st4) ?k = Some i"
    "lookup (cache st') ?k = Some i" "item_value i = v'" by blast
  have "lookup (cache ?st3) ?k = Some ?item" by (simp add: lookup_cache_set)
  with getOnCached_lookup [of "options t" ?item ?st3 ?k] i(1) have "i = ?item" by (simp add: g)
  with i show ?thesis by (simp add: ex rv)
qed

lemma fire_timer_none: "map_of (timers st) cl = None \<Longrightarrow> fire_timer cl st = (None, st)"
  by (simp add: fire_timer_def)

lemmas eval_defs = example_defs engine_defs bypass_def lookup_def entries_def fire_timer_def

subsection \<open>Clearing the cache\<close>

lemma entries_cache_delete: "entries (cache_delete k c) = AList.delete k (entries c)"
  by (cases c) (simp_all add: entries_def lru_delete_def Let_def evict_eq)

lemma entries_cache_clear: "entries (cache_clear c) = []"
  by (cases c) (simp_all add: entries_def lru_clear_def)

lemma filter_remove1_same: "filter (\<lambda>x. x \<noteq> k) (remove1 k xs) = filter (\<lambda>x. x \<noteq> k) xs"
  by (induction xs) auto

lemma recency_cache_delete:
  "filter (\<lambda>x. x \<noteq> k) (recency (cache_delete k c)) = filter (\<lambda>x. x \<noteq> k) (recency c)"
proof (cases c)
  case (MapC m)
  then show ?thesis
    by (auto simp: recency_def delete_keys removeAll_filter_not_eq intro: filter_cong)
next
  case (LruC l)
  then show ?thesis
    by (simp add: recency_def lru_delete_def Let_def evict_eq filter_remove1_same)
qed

lemma recency_cache_clear: "recency (cache_clear c) = []"
  by (cases c) (simp_all add: recency_def lru_clear_def)

text \<open>
  C7. \<open>clearCache()\<close> leaves the cache with no entry. \<open>clearCache(args)\<close> deletes the
  entry of the key resolved from \<open>args\<close> and nothing else: every other key keeps its
  entry, and the other keys keep their order.
\<close>

theorem clearCache_frame:
  "entries (cache (clearCache t [] st)) = [] \<and>
   recency (cache (clearCache t [] st)) = [] \<and>
   (args \<noteq> [] \<longrightarrow>
      entries (cache (clearCache t args st)) =
        AList.delete (resolveKey t args) (entries (cache st)) \<and>
      \<not> cache_has (cache (clearCache t args st)) (resolveKey t args) \<and>
      (\<forall>k. k \<noteq> resolveKey t args \<longrightarrow>
         lookup (cache (clearCache t args st)) k = lookup (cache st) k) \<and>
      filter (\<lambda>x. x \<noteq> resolveKey t args) (recency (cache (clearCache t args st))) =
        filter (\<lambda>x. x \<noteq> resolveKey t args) (recency (cache st)))"
  by (cases args)
    (simp_all add: clearCache_def entries_cache_clear recency_cache_clear entries_cache_delete
      recency_cache_delete cache_has_lookup lookup_cache_delete)


lemmas lru_defs = lru_options_def LruCache_new_def or_Infinity_def cache_has_lookup lru_has_def
  lru_set_def lru_get_def hit_def lru_delete_def evict_def splice1_def

lemma example_two_eq:
  "example_two =
    \<lparr>cache = LruC
       \<lparr>storage =
          [(KStr ''a'', \<lparr>item_key = KStr ''a'', item_value = JNum (Fin 0), item_cell = 0\<rparr>),
           (KStr ''b'', \<lparr>item_key = KStr ''b'', item_value = JNum (Fin 1), item_cell = 1\<rparr>)],
        queue = [KStr ''a'', KStr ''b''], maxSize = Fin 2\<rparr>,
     reclaimed = False, timers = [(0, KStr ''a'', Fin 1000), (1, KStr ''b'', Fin 1000)],
     next_cell = 2, handlers = [], calls = [[JStr ''a''], [JStr ''b'']]\<rparr>"
  by (simp add: example_two_def run_def eval_defs lru_defs)

theorem clearCache_frame_witness:
  "[JStr ''a''] \<noteq> [] \<and>
   map fst (entries (cache example_two)) = [KStr ''a'', KStr ''b''] \<and>
   entries (cache (clearCache (example counting (Some (Fin 1000)) (lru_options (Fin 2))) []
      example_two)) = [] \<and>
   entries (cache (clearCache (example counting (Some (Fin 1000)) (lru_options (Fin 2)))
      [JStr ''a''] example_two)) =
     [(KStr ''b'', \<lparr>item_key = KStr ''b'', item_value = JNum (Fin 1), item_cell = 1\<rparr>)] \<and>
   lookup (cache (clearCache (example counting (Some (Fin 1000)) (lru_options (Fin 2)))
      [JStr ''a''] example_two)) (KStr ''b'') = lookup (cache example_two) (KStr ''b'')"
proof -
  let ?t = "example counting (Some (Fin 1000)) (lru_options (Fin 2))"
  have k: "resolveKey ?t [JStr ''a''] = KStr ''a''" by (simp add: eval_defs lru_defs)
  have e: "entries (cache example_two) =
          [(KStr ''a'', \<lparr>item_key = KStr ''a'', item_value = JNum (Fin 0), item_cell = 0\<rparr>),
           (KStr ''b'', \<lparr>item_key = KStr ''b'', item_value = JNum (Fin 1), item_cell = 1\<rparr>)]"
    by (simp add: example_two_eq entries_def)
  have ne: "[JStr ''a''] \<noteq> []" by simp
  from clearCache_frame [of ?t example_two "[JStr ''a'']"] ne
  have "entries (cache (clearCache ?t [] example_two)) = []"
    and "entries (cache (clearCache ?t [JStr ''a''] example_two)) =
        AList.delete (KStr ''a'') (entries (cache example_two))"
    and "lookup (cache (clearCache ?t [JStr ''a''] example_two)) (KStr ''b'') =
        lookup (cache example_two) (KStr ''b'')"
    by (simp_all add: k)
  then show ?thesis by (simp add: e)
qed

subsection \<open>Promises that fail\<close>

lemma run_handlers_step:
  "run_handlers (item # items) st =
     run_handlers items (snd (clear (item_key item) (item_cell item) st))"
  using clear_frame(1) [of "item_key item" "item_cell item" st]
  by (cases "clear (item_key item) (item_cell item) st") (simp split: prod.splits)

lemma run_handlers_frame [simp]:
  "fst (run_handlers items st) = None \<and>
   handlers (snd (run_handlers items st)) = handlers st \<and>
   reclaimed (snd (run_handlers items st)) = reclaimed st \<and>
   calls (snd (run_handlers items st)) = calls st"
  by (induction items arbitrary: st) (simp_all add: run_handlers_step del: run_handlers.simps(2))

lemma run_handlers_lookup:
  "lookup (cache (snd (run_handlers items st))) k = None \<or>
   lookup (cache (snd (run_handlers items st))) k = lookup (cache st) k"
proof (induction items arbitrary: st)
  case Nil
  show ?case by simp
next
  case (Cons item items)
  show ?case
    using Cons.IH [of "snd (clear (item_key item) (item_cell item) st)"]
      clear_lookup [of "item_key item" "item_cell item" st k]
    by (auto simp: run_handlers_step simp del: run_handlers.simps(2))
qed

lemma run_handlers_deletes:
  assumes "\<not> reclaimed st" and "item \<in> set items"
  shows "lookup (cache (snd (run_handlers items st))) (item_key item) = None"
  using assms
proof (induction items arbitrary: st)
  case Nil
  then show ?case by simp
next
  case (Cons i items)
  let ?st' = "snd (clear (item_key i) (item_cell i) st)"
  have nr: "\<not> reclaimed ?st'" using Cons.prems(1) by simp
  show ?case
  proof (cases "item = i")
    case True
    with Cons.prems(1) have "lookup (cache ?st') (item_key item) = None"
      by (simp add: clear_cache lookup_cache_delete)
    with run_handlers_lookup [of items ?st' "item_key item"] show ?thesis
      by (simp add: run_handlers_step del: run_handlers.simps(2))
  next
    case False
    with Cons.prems(2) have "item \<in> set items" by simp
    from Cons.IH [OF nr this] show ?thesis
      by (simp add: run_handlers_step del: run_handlers.simps(2))
  qed
qed

lemma reject_promise_evicts:
  assumes "(p, item) \<in> set (handlers st)" and "\<not> reclaimed st"
  shows "fst (reject_promise p st) = None \<and>
         \<not> cache_has (cache (snd (reject_promise p st))) (item_key item) \<and>
         p \<notin> fst ` set (handlers (snd (reject_promise p st))) \<and>
         calls (snd (reject_promise p st)) = calls st"
proof -
  let ?items = "map snd (filter (\<lambda>h. fst h = p) (handlers st))"
  let ?st0 = "st\<lparr>handlers := filter (\<lambda>h. fst h \<noteq> p) (handlers st)\<rparr>"
  from assms(1) have m: "item \<in> set ?items" by force
  from assms(2) have nr: "\<not> reclaimed ?st0" by simp
  from run_handlers_deletes [OF nr m] show ?thesis
    by (auto simp: reject_promise_def cache_has_lookup)
qed

lemma execute_handlers:
  "handlers (snd (execute t args st)) =
     (if \<not> bypass (timeout t) \<and> \<not> cache_has (cache st) (resolveKey t args) \<and>
         opt_rejectFailedPromise (options t) \<noteq> Some False
      then (case func t (calls st) args of
              Inr (JPromise p) \<Rightarrow>
                handlers st @ [(p, \<lparr>item_key = resolveKey t args, item_value = JPromise p,
                                    item_cell = next_cell st\<rparr>)]
            | _ \<Rightarrow> handlers st)
      else handlers st)"
proof (cases "bypass (timeout t)")
  case True
  then show ?thesis by (simp add: execute_bypass)
next
  case nb: False
  then obtain n where n: "timeout t = Some n" by (auto simp: bypass_def split: option.splits)
  show ?thesis
  proof (cases "cache_has (cache st) (resolveKey t args)")
    case True
    with nb show ?thesis by (simp add: execute_hit)
  next
    case miss: False
    show ?thesis
    proof (cases "func t (calls st) args")
      case (Inl e)
      with n nb miss show ?thesis by (simp add: execute_def bypass_def Let_def)
    next
      case (Inr v)
      let ?k = "resolveKey t args"
      let ?item = "\<lparr>item_key = ?k, item_value = v, item_cell = next_cell st\<rparr>"
      let ?st3 = "applyTimeout ?k (next_cell st) (TtlNum n)
                (st\<lparr>calls := calls st @ [args], next_cell := Suc (next_cell st),
                    cache := cache_set ?k ?item (cache st)\<rparr>)"
      obtain e st4 where g: "getOnCached (options t) ?item ?st3 = (e, st4)"
        by (cases "getOnCached (options t) ?item ?st3")
      have h4: "handlers st4 =
         (if opt_rejectFailedPromise (options t) = Some False then handlers st
          else handlers (rejectFailedPromise ?item ?st3))"
        using getOnCached_handlers [of "options t" ?item ?st3] by (simp add: g)
      have "handlers (snd (execute t args st)) = handlers st4"
        by (cases e) (simp_all add: execute_miss [OF n nb miss Inr] Let_def g)
      with h4 nb miss Inr show ?thesis
        by (simp add: rejectFailedPromise_handlers split: jsval.splits)
    qed
  qed
qed

text \<open>
  C8. Unless \<open>rejectFailedPromise\<close> is \<open>false\<close>, a call that caches a promise attaches
  the entry's \<open>clear\<close> to that promise, and what the caller gets is the callee's own
  promise, not one derived from the handler. When the promise is rejected while the
  cache is live, the handlers run without throwing, the key is no longer cached, and
  the callee is not called. With \<open>rejectFailedPromise: false\<close> a call attaches no
  handler.
\<close>

theorem failed_promise_evicted:
  "(opt_rejectFailedPromise (options t) \<noteq> Some False \<and> \<not> bypass (timeout t) \<and>
    \<not> cache_has (cache st) (resolveKey t args) \<and> func t (calls st) args = Inr (JPromise p) \<longrightarrow>
      (p, \<lparr>item_key = resolveKey t args, item_value = JPromise p, item_cell = next_cell st\<rparr>)
        \<in> set (handlers (snd (execute t args st))) \<and>
      (\<forall>v. fst (execute t args st) = Inr v \<longrightarrow> v = JPromise p)) \<and>
   ((p, item) \<in> set (handlers s) \<and> \<not> reclaimed s \<longrightarrow>
      fst (reject_promise p s) = None \<and>
      \<not> cache_has (cache (snd (reject_promise p s))) (item_key item) \<and>
      p \<notin> fst ` set (handlers (snd (reject_promise p s))) \<and>
      calls (snd (reject_promise p s)) = calls s) \<and>
   (opt_rejectFailedPromise (options u) = Some False \<longrightarrow>
      handlers (snd (execute u args st)) = handlers st)"
proof (intro conjI impI allI)
  assume h: "opt_rejectFailedPromise (options t) \<noteq> Some False \<and> \<not> bypass (timeout t) \<and>
    \<not> cache_has (cache st) (resolveKey t args) \<and> func t (calls st) args = Inr (JPromise p)"
  then show "(p, \<lparr>item_key = resolveKey t args, item_value = JPromise p, item_cell = next_cell st\<rparr>)
        \<in> set (handlers (snd (execute t args st)))"
    by (simp add: execute_handlers)
  fix v
  assume "fst (execute t args st) = Inr v"
  with h execute_miss_value [of t st args "JPromise p" v] show "v = JPromise p" by blast
next
  assume "(p, item) \<in> set (handlers s) \<and> \<not> reclaimed s"
  then have a: "(p, item) \<in> set (handlers s)" and b: "\<not> reclaimed s" by blast+
  from reject_promise_evicts [OF a b]
  show "fst (reject_promise p s) = None"
    and "\<not> cache_has (cache (snd (reject_promise p s))) (item_key item)"
    and "p \<notin> fst ` set (handlers (snd (reject_promise p s)))"
    and "calls (snd (reject_promise p s)) = calls s"
    by blast+
next
  assume "opt_rejectFailedPromise (options u) = Some False"
  then show "handlers (snd (execute u args st)) = handlers st"
    by (simp add: execute_handlers)
qed


lemma example_promise_eq:
  "example_promise =
     \<lparr>cache = MapC [(KStr ''a'', \<lparr>item_key = KStr ''a'', item_value = JPromise 0, item_cell = 0\<rparr>)],
      reclaimed = False, timers = [(0, KStr ''a'', Fin 1000)], next_cell = 1,
      handlers = [(0, \<lparr>item_key = KStr ''a'', item_value = JPromise 0, item_cell = 0\<rparr>)],
      calls = [[JStr ''a'']]\<rparr>"
  by (simp add: example_promise_def promising_def eval_defs)

theorem failed_promise_evicted_witness:
  "handlers example_promise =
     [(0, \<lparr>item_key = KStr ''a'', item_value = JPromise 0, item_cell = 0\<rparr>)] \<and>
   fst (execute (example promising (Some (Fin 1000)) no_options) [JStr ''a'']
          (throttle no_options)) = Inr (JPromise 0) \<and>
   cache_has (cache example_promise) (KStr ''a'') \<and>
   \<not> reclaimed example_promise \<and>
   fst (reject_promise 0 example_promise) = None \<and>
   \<not> cache_has (cache (snd (reject_promise 0 example_promise))) (KStr ''a'') \<and>
   opt_rejectFailedPromise (options (example promising (Some (Fin 1000)) keep_failed))
     = Some False \<and>
   handlers (snd (execute (example promising (Some (Fin 1000)) keep_failed) [JStr ''a'']
          (throttle no_options))) = []"
proof -
  let ?t = "example promising (Some (Fin 1000)) no_options"
  let ?u = "example promising (Some (Fin 1000)) keep_failed"
  let ?s = "throttle no_options"
  let ?item = "\<lparr>item_key = KStr ''a'', item_value = JPromise 0, item_cell = 0\<rparr>"
  have h1: "opt_rejectFailedPromise (options ?t) \<noteq> Some False \<and> \<not> bypass (timeout ?t) \<and>
    \<not> cache_has (cache ?s) (resolveKey ?t [JStr ''a'']) \<and>
    func ?t (calls ?s) [JStr ''a''] = Inr (JPromise 0)"
    by (simp add: promising_def eval_defs)
  have h2: "(0, ?item) \<in> set (handlers example_promise) \<and> \<not> reclaimed example_promise"
    by (simp add: example_promise_eq)
  have h3: "opt_rejectFailedPromise (options ?u) = Some False"
    by (simp add: keep_failed_def eval_defs)
  have e: "fst (execute ?t [JStr ''a''] ?s) = Inr (JPromise 0)"
    "handlers example_promise = [(0, ?item)]" "cache_has (cache example_promise) (KStr ''a'')"
    "handlers ?s = []"
    by (simp_all add: example_promise_eq) (simp_all add: promising_def eval_defs)
  from failed_promise_evicted [of ?t ?s "[JStr ''a'']" 0 ?item example_promise ?u] h1 h2 h3
  have "fst (reject_promise 0 example_promise) = None"
    and "\<not> cache_has (cache (snd (reject_promise 0 example_promise))) (item_key ?item)"
    and "handlers (snd (execute ?u [JStr ''a''] ?s)) = handlers ?s"
    by blast+
  with e h2 h3 show ?thesis by simp
qed

subsection \<open>A cache with \<open>maxSize: 0\<close>\<close>

lemma read_value_unbounded:
  assumes "cache st = LruC l" and "maxSize l = PosInf"
  shows "\<exists>l'. cache (snd (read_value k st)) = LruC l' \<and> maxSize l' = PosInf \<and>
              storage l' = storage l"
  using assms lru_get_unbounded [of l k]
  by (cases "lru_get k l") (auto simp: read_value_def split: option.splits)

lemma execute_unbounded:
  assumes c: "cache st = LruC l" and m: "maxSize l = PosInf"
    and obs: "opt_onCached (options t) = None"
  shows "\<exists>l'. cache (snd (execute t args st)) = LruC l' \<and> maxSize l' = PosInf \<and>
           (\<forall>k. lru_has l k \<longrightarrow> lru_has l' k) \<and>
           (\<not> bypass (timeout t) \<and> (\<exists>v. func t (calls st) args = Inr v) \<longrightarrow>
              lru_has l' (resolveKey t args))"
proof (cases "bypass (timeout t)")
  case True
  with c m show ?thesis by (simp add: execute_bypass)
next
  case nb: False
  then obtain n where n: "timeout t = Some n" by (auto simp: bypass_def split: option.splits)
  let ?k = "resolveKey t args"
  show ?thesis
  proof (cases "cache_has (cache st) ?k")
    case True
    with c have "lru_has l ?k" by simp
    with read_value_unbounded [OF c m, of ?k] nb True show ?thesis
      by (auto simp: execute_hit lru_has_def)
  next
    case miss: False
    show ?thesis
    proof (cases "func t (calls st) args")
      case (Inl e)
      with n nb miss c m show ?thesis by (simp add: execute_def bypass_def Let_def)
    next
      case (Inr v)
      let ?item = "\<lparr>item_key = ?k, item_value = v, item_cell = next_cell st\<rparr>"
      let ?st3 = "applyTimeout ?k (next_cell st) (TtlNum n)
                (st\<lparr>calls := calls st @ [args], next_cell := Suc (next_cell st),
                    cache := cache_set ?k ?item (cache st)\<rparr>)"
      let ?l3 = "lru_set ?k ?item l"
      obtain e st4 where g: "getOnCached (options t) ?item ?st3 = (e, st4)"
        by (cases "getOnCached (options t) ?item ?st3")
      from getOnCached_no_observer [OF obs, of ?item ?st3] have e: "e = None"
        and c4': "cache st4 = cache ?st3" by (simp_all add: g)
      from c4' have c4: "cache st4 = LruC ?l3" by (simp add: c)
      have m3: "maxSize ?l3 = PosInf" and s3: "storage ?l3 = AList.update ?k ?item (storage l)"
        using lru_set_unbounded [OF m, of ?k ?item] by simp_all
      have ex: "execute t args st = read_value ?k st4"
        by (simp add: execute_miss [OF n nb miss Inr] Let_def g e)
      from read_value_unbounded [OF c4 m3, of ?k] obtain l' where
        l': "cache (snd (read_value ?k st4)) = LruC l'" "maxSize l' = PosInf"
        "storage l' = storage ?l3" by blast
      then show ?thesis
        by (auto simp: ex s3 lru_has_def update_conv')
    qed
  qed
qed

lemma run_unbounded:
  assumes obs: "opt_onCached (options t) = None" and nb: "\<not> bypass (timeout t)"
    and ok: "\<forall>h a. \<exists>v. func t h a = Inr v"
  shows "cache st = LruC l \<Longrightarrow> maxSize l = PosInf \<Longrightarrow>
     \<exists>l'. cache (run t argss st) = LruC l' \<and> maxSize l' = PosInf \<and>
       (\<forall>k. lru_has l k \<longrightarrow> lru_has l' k) \<and>
       (\<forall>args \<in> set argss. lru_has l' (resolveKey t args))"
proof (induction argss arbitrary: st l)
  case Nil
  then show ?case by (simp add: run_def)
next
  case (Cons a argss)
  from execute_unbounded [OF Cons.prems obs, of a] nb ok obtain l1 where
    l1: "cache (snd (execute t a st)) = LruC l1" "maxSize l1 = PosInf"
    "\<forall>k. lru_has l k \<longrightarrow> lru_has l1 k" "lru_has l1 (resolveKey t a)"
    by blast
  from Cons.IH [OF l1(1,2)] obtain l' where
    l': "cache (run t argss (snd (execute t a st))) = LruC l'" "maxSize l' = PosInf"
    "\<forall>k. lru_has l1 k \<longrightarrow> lru_has l' k" "\<forall>args \<in> set argss. lru_has l' (resolveKey t args)"
    by blast
  have "run t (a # argss) st = run t argss (snd (execute t a st))" by (simp add: run_def)
  with l1 l' show ?case by auto
qed

text \<open>
  C10. \<open>new LruCache({maxSize: 0})\<close> has the size \<open>Infinity\<close>: after any sequence of \<open>set\<close>
  operations with distinct keys, every key is there (\<open>has\<close>) with its value (\<open>get\<close>). The
  engine with \<open>maxSize: 0\<close> builds that cache, and after any sequence of calls every
  key called for is cached (the callee returning each time, no observer, nothing
  cleared).
\<close>

theorem maxSize_zero_unbounded:
  "(distinct (map fst kvs) \<and> (k, v) \<in> set kvs \<longrightarrow>
      maxSize (set_all kvs (LruCache_new (Some (Fin 0)))) = PosInf \<and>
      lru_has (set_all kvs (LruCache_new (Some (Fin 0)))) k \<and>
      fst (lru_get k (set_all kvs (LruCache_new (Some (Fin 0))))) = Some v) \<and>
   (opt_cache (options t) = None \<and> opt_maxSize (options t) = Some (Fin 0) \<and>
    opt_onCached (options t) = None \<and> \<not> bypass (timeout t) \<and>
    (\<forall>h a. \<exists>v. func t h a = Inr v) \<and> args \<in> set argss \<longrightarrow>
      cache (throttle (options t)) = LruC (LruCache_new (Some (Fin 0))) \<and>
      cache_has (cache (run t argss (throttle (options t)))) (resolveKey t args))"
proof (intro conjI impI)
  let ?c = "set_all kvs (LruCache_new (Some (Fin 0)) :: 'a LruCache)"
  assume "distinct (map fst kvs) \<and> (k, v) \<in> set kvs"
  then have d: "distinct (map fst kvs)" and kv: "(k, v) \<in> set kvs" by blast+
  show m: "maxSize ?c = PosInf" by (simp add: set_all_maxSize maxSize_zero)
  from set_all_lookup [OF maxSize_zero d kv] have l: "map_of (storage ?c) k = Some v" .
  then show "lru_has ?c k" by (simp add: lru_has_def)
  from l show "fst (lru_get k ?c) = Some v" by (simp add: lru_get_unbounded [OF m])
next
  assume h: "opt_cache (options t) = None \<and> opt_maxSize (options t) = Some (Fin 0) \<and>
    opt_onCached (options t) = None \<and> \<not> bypass (timeout t) \<and>
    (\<forall>h a. \<exists>v. func t h a = Inr v) \<and> args \<in> set argss"
  then show c: "cache (throttle (options t)) = LruC (LruCache_new (Some (Fin 0)))"
    by (simp add: throttle_def getCache_def)
  from h have obs: "opt_onCached (options t) = None" and nb: "\<not> bypass (timeout t)"
    and ok: "\<forall>h a. \<exists>v. func t h a = Inr v" and mem: "args \<in> set argss" by blast+
  from run_unbounded [OF obs nb ok c maxSize_zero, of argss] mem
  show "cache_has (cache (run t argss (throttle (options t)))) (resolveKey t args)"
    by auto
qed


theorem maxSize_zero_unbounded_witness:
  "distinct (map fst [(KStr ''a'', 1::int), (KStr [], 2), (KNum 0, 3)]) \<and>
   (KStr [], 2) \<in> set [(KStr ''a'', 1::int), (KStr [], 2), (KNum 0, 3)] \<and>
   lru_has (set_all [(KStr ''a'', 1::int), (KStr [], 2), (KNum 0, 3)]
      (LruCache_new (Some (Fin 0)))) (KStr []) \<and>
   fst (lru_get (KStr []) (set_all [(KStr ''a'', 1::int), (KStr [], 2), (KNum 0, 3)]
      (LruCache_new (Some (Fin 0))))) = Some 2 \<and>
   opt_maxSize (options (example counting (Some (Fin 1000)) (lru_options (Fin 0))))
      = Some (Fin 0) \<and>
   \<not> bypass (timeout (example counting (Some (Fin 1000)) (lru_options (Fin 0)))) \<and>
   [JStr ''a''] \<in> set [[JStr ''a''], [JStr ''b''], [JStr ''c'']] \<and>
   cache_has
     (cache (run (example counting (Some (Fin 1000)) (lru_options (Fin 0)))
        [[JStr ''a''], [JStr ''b''], [JStr ''c'']]
        (throttle (options (example counting (Some (Fin 1000)) (lru_options (Fin 0)))))))
     (KStr ''a'')"
proof -
  let ?kvs = "[(KStr ''a'', 1::int), (KStr [], 2), (KNum 0, 3)]"
  let ?t = "example counting (Some (Fin 1000)) (lru_options (Fin 0))"
  let ?argss = "[[JStr ''a''], [JStr ''b''], [JStr ''c'']]"
  have h1: "distinct (map fst ?kvs) \<and> (KStr [], 2) \<in> set ?kvs" by simp
  have h2: "opt_cache (options ?t) = None \<and> opt_maxSize (options ?t) = Some (Fin 0) \<and>
    opt_onCached (options ?t) = None \<and> \<not> bypass (timeout ?t) \<and>
    (\<forall>h a. \<exists>v. func ?t h a = Inr v) \<and> [JStr ''a''] \<in> set ?argss"
    by (simp add: eval_defs lru_options_def)
  have k: "resolveKey ?t [JStr ''a''] = KStr ''a''" by (simp add: eval_defs lru_options_def)
  from maxSize_zero_unbounded [of ?kvs "KStr []" 2 ?t "[JStr ''a'']" ?argss] h1 h2
  have "lru_has (set_all ?kvs (LruCache_new (Some (Fin 0)))) (KStr [])"
    and "fst (lru_get (KStr []) (set_all ?kvs (LruCache_new (Some (Fin 0))))) = Some 2"
    and "cache_has (cache (run ?t ?argss (throttle (options ?t)))) (resolveKey ?t [JStr ''a''])"
    by blast+
  with h1 h2 show ?thesis by (simp add: k)
qed

subsection \<open>Eviction\<close>

text \<open>
  C3. With \<open>maxSize = N\<close>, the \<open>N+1\<close>th distinct key should evict the oldest, which is
  then no longer retrievable. With \<open>maxSize: 1\<close>, after \<open>set('', 1); set('b', 2)\<close> the key
  \<open>''\<close> has left the queue, yet \<open>has('')\<close> is true and \<open>get('')\<close> returns 1: the guard \<open>if
  (evictKey)\<close> skips the deletion from the storage for a falsy key.
\<close>

theorem lru_falsy_key_not_evicted:
  "lru_has (lru_set (KStr ''b'') (2::int) (lru_set (KStr []) 1 (LruCache_new (Some (Fin 1)))))
     (KStr []) \<and>
   fst (lru_get (KStr [])
     (lru_set (KStr ''b'') (2::int) (lru_set (KStr []) 1 (LruCache_new (Some (Fin 1))))))
     = Some 1 \<and>
   queue (lru_set (KStr ''b'') (2::int) (lru_set (KStr []) 1 (LruCache_new (Some (Fin 1)))))
     = [KStr ''b'']"
  by (simp add: lru_defs)

lemma lru_scenario:
  "\<not> lru_has (lru_set (KStr ''c'') (3::int) (lru_set (KStr ''b'') 2 (lru_set (KStr ''a'') 1
       (LruCache_new (Some (Fin 2)))))) (KStr ''a'') \<and>
   lru_has (lru_set (KStr ''c'') (3::int) (lru_set (KStr ''b'') 2 (lru_set (KStr ''a'') 1
       (LruCache_new (Some (Fin 2)))))) (KStr ''b'') \<and>
   lru_has (lru_set (KStr ''c'') (3::int) (lru_set (KStr ''b'') 2 (lru_set (KStr ''a'') 1
       (LruCache_new (Some (Fin 2)))))) (KStr ''c'')"
  by (simp add: lru_defs)

text \<open>
  The general picture, for every \<open>maxSize = N \<ge> 1\<close> and \<open>N+1\<close> distinct keys set in turn:
  the oldest key leaves the queue, and leaves the storage exactly when it is truthy. A
  \<open>get\<close> of the oldest key before the last \<open>set\<close> moves it to the newest end, and the
  second oldest is evicted in its place.
\<close>

lemma update_fresh: "k \<notin> fst ` set al \<Longrightarrow> AList.update k v al = al @ [(k, v)]"
  by (induction al) auto

lemma LruCache_new_pos:
  "0 < N \<Longrightarrow> LruCache_new (Some (Fin (of_nat N))) = \<lparr>storage = [], queue = [], maxSize = Fin (of_nat N)\<rparr>"
  by (simp add: LruCache_new_def or_Infinity_def)

lemma lru_set_room:
  assumes "k \<notin> fst ` set kvs" and "length kvs < N"
  shows "lru_set k v \<lparr>storage = kvs, queue = map fst kvs, maxSize = Fin (of_nat N)\<rparr> =
           \<lparr>storage = kvs @ [(k, v)], queue = map fst kvs @ [k], maxSize = Fin (of_nat N)\<rparr>"
proof -
  from assms(1) have "indexOf (map fst kvs) k = -1" by (simp add: indexOf_notin)
  moreover from assms(2) have "\<not> (rat_of_nat N < 1 + rat_of_nat (length kvs))"
    by (metis Suc_leI of_nat_Suc of_nat_le_iff not_less)
  ultimately show ?thesis using assms(1)
    by (simp add: lru_set_def hit_def Let_def update_fresh)
qed

lemma set_all_room:
  assumes "distinct (map fst kvs)" and "length kvs \<le> N"
  shows "set_all kvs \<lparr>storage = [], queue = [], maxSize = Fin (of_nat N)\<rparr> =
           \<lparr>storage = kvs, queue = map fst kvs, maxSize = Fin (of_nat N)\<rparr>"
  using assms
proof (induction kvs rule: rev_induct)
  case Nil
  show ?case by (simp add: set_all_def)
next
  case (snoc kv kvs)
  obtain k v where kv: "kv = (k, v)" by (cases kv)
  from snoc.prems have d: "distinct (map fst kvs)" and f: "k \<notin> fst ` set kvs"
    and l: "length kvs < N" by (auto simp: kv)
  from snoc.IH [OF d] l show ?case
    by (simp add: kv set_all_snoc lru_set_room [OF f l])
qed

lemma lru_set_full:
  assumes "distinct (k0 # map fst kvs)" and "k \<notin> fst ` set kvs" and "k \<noteq> k0"
    and "Suc (length kvs) = N"
  shows "lru_set k v \<lparr>storage = (k0, v0) # kvs, queue = k0 # map fst kvs, maxSize = Fin (of_nat N)\<rparr> =
           \<lparr>storage = (if key_truthy k0 then kvs else (k0, v0) # kvs) @ [(k, v)],
            queue = map fst kvs @ [k], maxSize = Fin (of_nat N)\<rparr>"
proof -
  from assms(2,3) have "indexOf (k0 # map fst kvs) k = -1"
    by (intro indexOf_notin) auto
  moreover from assms(4) have "rat_of_nat N < 1 + (1 + rat_of_nat (length kvs))"
    by (metis add.commute less_add_one of_nat_Suc)
  moreover from assms(1) have "AList.delete k0 kvs = kvs" by (intro delete_id) auto
  ultimately show ?thesis using assms(2,3)
    by (simp add: lru_set_def hit_def Let_def update_fresh)
qed

lemma lru_evicts_oldest:
  assumes d: "distinct (map fst ((k0, v0) # kvs @ [(k, v)]))" and n: "Suc (length kvs) = N"
  shows "set_all ((k0, v0) # kvs @ [(k, v)]) (LruCache_new (Some (Fin (of_nat N)))) =
           \<lparr>storage = (if key_truthy k0 then kvs else (k0, v0) # kvs) @ [(k, v)],
            queue = map fst kvs @ [k], maxSize = Fin (of_nat N)\<rparr>"
proof -
  from n have pos: "0 < N" by auto
  from d have d1: "distinct (map fst ((k0, v0) # kvs))" by simp
  from n have l: "length ((k0, v0) # kvs) \<le> N" by simp
  have "set_all (((k0, v0) # kvs) @ [(k, v)]) (LruCache_new (Some (Fin (of_nat N)))) =
     lru_set k v \<lparr>storage = (k0, v0) # kvs, queue = map fst ((k0, v0) # kvs), maxSize = Fin (of_nat N)\<rparr>"
    by (simp only: set_all_snoc LruCache_new_pos [OF pos] set_all_room [OF d1 l])
  also have "\<dots> = \<lparr>storage = (if key_truthy k0 then kvs else (k0, v0) # kvs) @ [(k, v)],
            queue = map fst kvs @ [k], maxSize = Fin (of_nat N)\<rparr>"
    using d n lru_set_full [of k0 kvs k N v v0] by auto
  finally show ?thesis by simp
qed


lemma hit_keeps_falsy:
  "\<not> key_truthy k' \<Longrightarrow> map_of (storage (hit k c)) k' = map_of (storage c) k'"
  by (cases "queue c @ [k]") (auto simp: hit_def Let_def delete_conv')

lemma lru_get_queued:
  "k \<in> set (queue c) \<Longrightarrow>
   lru_get k c = (map_of (storage c) k, if lru_has c k then c\<lparr>queue := remove1 k (queue c) @ [k]\<rparr> else c)"
  by (simp add: lru_get_def Let_def hit_known)

lemma lru_evicts_truthy:
  assumes d: "distinct (map fst ((k0, v0) # kvs @ [(k, v)]))" and n: "Suc (length kvs) = N"
    and t: "key_truthy k0" and m: "(k', v') \<in> set (kvs @ [(k, v)])"
  shows "\<not> lru_has (set_all ((k0, v0) # kvs @ [(k, v)]) (LruCache_new (Some (Fin (of_nat N))))) k0 \<and>
         fst (lru_get k0 (set_all ((k0, v0) # kvs @ [(k, v)]) (LruCache_new (Some (Fin (of_nat N)))))) = None \<and>
         lru_has (set_all ((k0, v0) # kvs @ [(k, v)]) (LruCache_new (Some (Fin (of_nat N))))) k' \<and>
         fst (lru_get k' (set_all ((k0, v0) # kvs @ [(k, v)]) (LruCache_new (Some (Fin (of_nat N)))))) = Some v'"
proof -
  let ?c = "\<lparr>storage = kvs @ [(k, v)], queue = map fst kvs @ [k], maxSize = Fin (of_nat N)\<rparr>"
  have c: "set_all ((k0, v0) # kvs @ [(k, v)]) (LruCache_new (Some (Fin (of_nat N)))) = ?c"
    using lru_evicts_oldest [OF d n] t by simp
  from d have d': "distinct (map fst (kvs @ [(k, v)]))" by simp
  from d have "k0 \<notin> fst ` set (kvs @ [(k, v)])" by auto
  then have none: "map_of (kvs @ [(k, v)]) k0 = None" by (simp add: map_of_eq_None_iff)
  from d' m have some: "map_of (kvs @ [(k, v)]) k' = Some v'" by (rule map_of_is_SomeI)
  from m have q: "k' \<in> set (queue ?c)" by force
  show ?thesis
    unfolding c using none some lru_get_queued [OF q]
    by (simp add: lru_has_def lru_get_def Let_def)
qed

lemma lru_keeps_falsy:
  assumes d: "distinct (map fst ((k0, v0) # kvs @ [(k, v)]))" and n: "Suc (length kvs) = N"
    and f: "\<not> key_truthy k0"
  shows "lru_has (set_all ((k0, v0) # kvs @ [(k, v)]) (LruCache_new (Some (Fin (of_nat N))))) k0 \<and>
         fst (lru_get k0 (set_all ((k0, v0) # kvs @ [(k, v)]) (LruCache_new (Some (Fin (of_nat N)))))) = Some v0 \<and>
         length (storage (set_all ((k0, v0) # kvs @ [(k, v)]) (LruCache_new (Some (Fin (of_nat N)))))) = Suc N"
proof -
  let ?c = "\<lparr>storage = (k0, v0) # kvs @ [(k, v)], queue = map fst kvs @ [k], maxSize = Fin (of_nat N)\<rparr>"
  have c: "set_all ((k0, v0) # kvs @ [(k, v)]) (LruCache_new (Some (Fin (of_nat N)))) = ?c"
    using lru_evicts_oldest [OF d n] f by simp
  show ?thesis
    unfolding c using n hit_keeps_falsy [OF f, of k0 ?c]
    by (simp add: lru_has_def lru_get_def Let_def)
qed

lemma lru_get_saves:
  assumes d: "distinct (map fst ((k0, v0) # (k1, v1) # kvs @ [(k, v)]))"
    and n: "Suc (Suc (length kvs)) = N" and t: "key_truthy k1"
  shows "fst (lru_get k0 (set_all ((k0, v0) # (k1, v1) # kvs) (LruCache_new (Some (Fin (of_nat N)))))) = Some v0 \<and>
         lru_set k v (snd (lru_get k0 (set_all ((k0, v0) # (k1, v1) # kvs) (LruCache_new (Some (Fin (of_nat N))))))) =
           \<lparr>storage = (k0, v0) # kvs @ [(k, v)], queue = map fst kvs @ [k0, k], maxSize = Fin (of_nat N)\<rparr>"
proof -
  from n have pos: "0 < N" by auto
  let ?c = "\<lparr>storage = (k0, v0) # (k1, v1) # kvs, queue = k0 # k1 # map fst kvs, maxSize = Fin (of_nat N)\<rparr>"
  from d have d1: "distinct (map fst ((k0, v0) # (k1, v1) # kvs))" by simp
  from n have l: "length ((k0, v0) # (k1, v1) # kvs) \<le> N" by simp
  have c: "set_all ((k0, v0) # (k1, v1) # kvs) (LruCache_new (Some (Fin (of_nat N)))) = ?c"
    using set_all_room [OF d1 l] by (simp add: LruCache_new_pos [OF pos])
  have g: "lru_get k0 ?c = (Some v0, ?c\<lparr>queue := k1 # map fst kvs @ [k0]\<rparr>)"
    by (simp add: lru_get_queued lru_has_def)
  from d have "indexOf (k1 # map fst kvs @ [k0]) k = -1" by (intro indexOf_notin) auto
  moreover from n have "rat_of_nat N < 1 + (1 + (1 + rat_of_nat (length kvs)))"
    by (metis add.commute less_add_one of_nat_Suc)
  moreover from d have "AList.delete k1 kvs = kvs" by (intro delete_id) auto
  moreover from d have "k \<notin> fst ` set kvs" "k \<noteq> k0" "k1 \<noteq> k0" by auto
  ultimately have "lru_set k v (?c\<lparr>queue := k1 # map fst kvs @ [k0]\<rparr>) =
      \<lparr>storage = (k0, v0) # kvs @ [(k, v)], queue = map fst kvs @ [k0, k], maxSize = Fin (of_nat N)\<rparr>"
    using t by (simp add: lru_set_def hit_def Let_def update_fresh)
  then show ?thesis by (simp add: c g)
qed

subsection \<open>A cache that can hold an entry\<close>

lemma hit_queued:
  assumes "\<not> num_less (maxSize l) (Fin 1)"
  shows "k \<in> set (queue (hit k l))"
proof (cases "k \<in> set (queue l)")
  case True
  then show ?thesis by (simp add: hit_known)
next
  case False
  then have idx: "\<not> indexOf (queue l) k > -1" by (simp add: indexOf_mem)
  show ?thesis
  proof (cases "queue l")
    case Nil
    with idx assms show ?thesis by (simp add: hit_def Let_def)
  next
    case (Cons q qs)
    with idx show ?thesis by (simp add: hit_def Let_def)
  qed
qed

lemma hit_maxSize [simp]: "maxSize (hit k l) = maxSize l"
  by (cases "queue l @ [k]") (auto simp: hit_def Let_def)

lemma lru_get_after_set:
  assumes "\<not> num_less (maxSize l) (Fin 1)"
  shows "fst (lru_get k (lru_set k v l)) = Some v"
proof -
  let ?c = "lru_set k v l"
  have q: "k \<in> set (queue ?c)" using hit_queued [OF assms, of k] by (simp add: lru_set_def Let_def)
  have "map_of (storage ?c) k = Some v" by (simp add: lru_set_def Let_def update_conv')
  with lru_get_queued [OF q] show ?thesis by simp
qed

lemma cache_get_after_set:
  "room_for_one c \<Longrightarrow> fst (cache_get k (cache_set k item c)) = Some item"
  by (cases c) (auto simp: room_for_one_def update_conv' lru_get_after_set split: prod.splits
      dest: lru_get_after_set [where k = k and v = item])

lemma read_value_after_set:
  assumes "room_for_one c" and "cache s = cache_set k item c"
  shows "fst (read_value k s) = Inr (item_value item) \<and>
         lookup (cache (snd (read_value k s))) k = Some item"
proof -
  obtain r c' where g: "cache_get k (cache s) = (r, c')" by (cases "cache_get k (cache s)")
  with cache_get_after_set [OF assms(1), of k item] assms(2) have r: "r = Some item" by simp
  from cache_get_result [OF g] r have "lookup c' k = Some item" by simp
  with g r show ?thesis by (simp add: read_value_def)
qed

subsection \<open>Observers\<close>

lemma getOnCached_run_calls:
  "getOnCached opts item st =
     run_calls item (observer_calls opts item)
       (if opt_rejectFailedPromise opts = Some False then st else rejectFailedPromise item st)"
  by (simp add: getOnCached_def observer_calls_def split: option.splits)

lemma run_calls_only_ttl:
  "only_ttl cs \<Longrightarrow>
   fst (run_calls item cs st) = None \<and> cache (snd (run_calls item cs st)) = cache st"
  by (induction cs arbitrary: st rule: only_ttl.induct) simp_all


lemma getOnCached_only_ttl:
  "only_ttl (observer_calls opts item) \<Longrightarrow>
   fst (getOnCached opts item st) = None \<and> cache (snd (getOnCached opts item st)) = cache st"
  by (simp add: getOnCached_run_calls run_calls_only_ttl)


subsection \<open>Two calls\<close>

lemma execute_populates:
  assumes nb: "\<not> bypass (timeout t)"
    and room: "room_for_one (cache st)"
    and miss: "\<not> cache_has (cache st) (resolveKey t args)"
    and ok: "func t (calls st) args = Inr v"
    and obs: "only_ttl (observer_calls (options t)
                \<lparr>item_key = resolveKey t args, item_value = v, item_cell = next_cell st\<rparr>)"
  shows "fst (execute t args st) = Inr v"
proof -
  let ?k = "resolveKey t args"
  from nb obtain n where n: "timeout t = Some n" by (auto simp: bypass_def split: option.splits)
  let ?item = "\<lparr>item_key = ?k, item_value = v, item_cell = next_cell st\<rparr>"
  let ?st3 = "applyTimeout ?k (next_cell st) (TtlNum n)
                (st\<lparr>calls := calls st @ [args], next_cell := Suc (next_cell st),
                    cache := cache_set ?k ?item (cache st)\<rparr>)"
  obtain e st4 where g: "getOnCached (options t) ?item ?st3 = (e, st4)"
    by (cases "getOnCached (options t) ?item ?st3")
  from getOnCached_only_ttl [OF obs, of ?st3] have e: "e = None"
    and c4: "cache st4 = cache_set ?k ?item (cache st)" by (simp_all add: g)
  have ex: "execute t args st = read_value ?k st4"
    by (simp add: execute_miss [OF n nb miss ok] Let_def g e)
  from read_value_after_set [OF room c4] show ?thesis by (simp add: ex)
qed

text \<open>
  C1 (amended). Take a timeout of at least 1 (finite, or \<open>Infinity\<close>), a cache that can
  hold an entry, a key that is not cached, a callee that returns, and an observer that
  does nothing with the item but call \<open>ttl\<close>. Then the call returns the callee's value, a
  second call whose arguments resolve to the same key, with nothing in between, returns
  the same value, and over the two calls the callee has been invoked exactly once. As
  stated the claim fails with a timeout below 1, which disables caching, and where the
  first call throws although the callee returned.
\<close>

theorem second_call_cached:
  assumes nb: "\<not> bypass (timeout t)"
    and room: "room_for_one (cache st)"
    and miss: "\<not> cache_has (cache st) (resolveKey t args)"
    and ok: "func t (calls st) args = Inr v"
    and obs: "only_ttl (observer_calls (options t)
                \<lparr>item_key = resolveKey t args, item_value = v, item_cell = next_cell st\<rparr>)"
    and same: "resolveKey t args' = resolveKey t args"
  shows "fst (execute t args st) = Inr v \<and>
         fst (execute t args' (snd (execute t args st))) = Inr v \<and>
         calls (snd (execute t args' (snd (execute t args st)))) = calls st @ [args]"
proof -
  have r: "fst (execute t args st) = Inr v"
    using nb room miss ok obs by (rule execute_populates)
  then have first: "execute t args st = (Inr v, snd (execute t args st))"
    by (cases "execute t args st") simp
  from second_call_after_return [OF nb first same] miss r show ?thesis by simp
qed


subsection \<open>The size of the cache does not change\<close>

lemma getCache_room:
  assumes "opt_cache opts = None"
    and "opt_maxSize opts = None \<or>
         (\<exists>n. opt_maxSize opts = Some n \<and> (num_truthy n \<longrightarrow> \<not> num_less n (Fin 1)))"
  shows "room_for_one (getCache opts)"
proof (cases "opt_maxSize opts")
  case None
  with assms(1) show ?thesis by (simp add: getCache_def room_for_one_def)
next
  case (Some n)
  with assms(2) have "num_truthy n \<longrightarrow> \<not> num_less n (Fin 1)" by simp
  with Some assms(1) show ?thesis
    by (simp add: getCache_def room_for_one_def LruCache_new_def or_Infinity_def)
qed

lemma room_cache_set: "room_for_one (cache_set k item c) = room_for_one c"
  by (cases c) (simp_all add: room_for_one_def lru_set_def Let_def)

lemma room_cache_get: "room_for_one (snd (cache_get k c)) = room_for_one c"
  by (cases c) (simp_all add: room_for_one_def lru_get_def Let_def split: prod.splits)

lemma room_cache_delete: "room_for_one (cache_delete k c) = room_for_one c"
  by (cases c) (simp_all add: room_for_one_def lru_delete_def evict_eq Let_def)

lemma room_cache_clear: "room_for_one (cache_clear c) = room_for_one c"
  by (cases c) (simp_all add: room_for_one_def lru_clear_def)

lemma room_clear: "room_for_one (cache (snd (clear k cl st))) = room_for_one (cache st)"
  by (simp add: clear_cache room_cache_delete)

lemma room_run_calls:
  "room_for_one (cache (snd (run_calls item cs st))) = room_for_one (cache st)"
proof (induction cs arbitrary: st)
  case Nil
  show ?case by simp
next
  case (Cons a cs)
  show ?case
  proof (cases a)
    case CallClear
    then show ?thesis
      using Cons.IH [of "snd (clear (item_key item) (item_cell item) st)"]
      by (simp add: run_calls_clear room_clear del: run_calls.simps(2))
  next
    case (CallTtl x)
    then show ?thesis
      using Cons.IH [of "applyTimeout (item_key item) (item_cell item) x st"] by simp
  next
    case (Throw x)
    then show ?thesis by simp
  qed
qed

lemma room_getOnCached:
  "room_for_one (cache (snd (getOnCached opts item st))) = room_for_one (cache st)"
  by (simp add: getOnCached_run_calls room_run_calls)

lemma room_read_value:
  "room_for_one (cache (snd (read_value k st))) = room_for_one (cache st)"
  using room_cache_get [of k "cache st"]
  by (cases "cache_get k (cache st)") (auto simp: read_value_def split: option.splits)

lemma room_execute:
  "room_for_one (cache (snd (execute t args st))) = room_for_one (cache st)"
proof (cases "bypass (timeout t)")
  case True
  then show ?thesis by (simp add: execute_bypass)
next
  case nb: False
  then obtain n where n: "timeout t = Some n" by (auto simp: bypass_def split: option.splits)
  show ?thesis
  proof (cases "cache_has (cache st) (resolveKey t args)")
    case True
    with nb show ?thesis by (simp add: execute_hit room_read_value)
  next
    case miss: False
    show ?thesis
    proof (cases "func t (calls st) args")
      case (Inl e)
      with n nb miss show ?thesis by (simp add: execute_def bypass_def Let_def)
    next
      case (Inr v)
      let ?k = "resolveKey t args"
      let ?item = "\<lparr>item_key = ?k, item_value = v, item_cell = next_cell st\<rparr>"
      let ?st3 = "applyTimeout ?k (next_cell st) (TtlNum n)
                (st\<lparr>calls := calls st @ [args], next_cell := Suc (next_cell st),
                    cache := cache_set ?k ?item (cache st)\<rparr>)"
      obtain e st4 where g: "getOnCached (options t) ?item ?st3 = (e, st4)"
        by (cases "getOnCached (options t) ?item ?st3")
      have "room_for_one (cache (snd (getOnCached (options t) ?item ?st3))) =
            room_for_one (cache ?st3)"
        by (simp only: room_getOnCached)
      then have "room_for_one (cache st4) = room_for_one (cache ?st3)"
        by (simp only: g snd_conv)
      then have r4: "room_for_one (cache st4) = room_for_one (cache st)"
        by (simp add: room_cache_set)
      show ?thesis
        by (cases e) (simp_all add: execute_miss [OF n nb miss Inr] Let_def g r4 room_read_value)
    qed
  qed
qed

lemma room_clearCache: "room_for_one (cache (clearCache t args st)) = room_for_one (cache st)"
  by (simp add: clearCache_def room_cache_clear room_cache_delete)

lemma room_fire_timer: "room_for_one (cache (snd (fire_timer cl st))) = room_for_one (cache st)"
  by (simp add: fire_timer_def room_clear split: option.splits prod.splits)


lemmas call_defs = eval_defs lru_defs observer_calls_def room_for_one_def clear_def call_delete_def
  getRealRef_def cacheRef_def isRealRefDead_False clearing_def throwing_def

theorem second_call_cached_counterexample:
  "(0::rat) < 1 / 2 \<and>
   fst (execute (example counting (Some (Fin (1 / 2))) no_options) [JStr ''a'']
          (throttle no_options)) = Inr (JNum (Fin 0)) \<and>
   fst (execute (example counting (Some (Fin (1 / 2))) no_options) [JStr ''a'']
          (snd (execute (example counting (Some (Fin (1 / 2))) no_options) [JStr ''a'']
                  (throttle no_options)))) = Inr (JNum (Fin 1)) \<and>
   calls (snd (execute (example counting (Some (Fin (1 / 2))) no_options) [JStr ''a'']
          (snd (execute (example counting (Some (Fin (1 / 2))) no_options) [JStr ''a'']
                  (throttle no_options))))) = [[JStr ''a''], [JStr ''a'']] \<and>
   fst (execute (example counting (Some (Fin 1000)) clearing) [JStr ''a'']
          (throttle clearing)) = Inl TypeError \<and>
   calls (snd (execute (example counting (Some (Fin 1000)) clearing) [JStr ''a'']
          (snd (execute (example counting (Some (Fin 1000)) clearing) [JStr ''a'']
                  (throttle clearing))))) = [[JStr ''a''], [JStr ''a'']] \<and>
   fst (execute (example counting (Some (Fin 1000)) (lru_options (Fin (1 / 2)))) [JStr ''a'']
          (throttle (lru_options (Fin (1 / 2))))) = Inl TypeError \<and>
   calls (snd (execute (example counting (Some (Fin 1000)) (lru_options (Fin (1 / 2))))
          [JStr ''a'']
          (snd (execute (example counting (Some (Fin 1000)) (lru_options (Fin (1 / 2))))
                  [JStr ''a''] (throttle (lru_options (Fin (1 / 2)))))))) =
     [[JStr ''a''], [JStr ''a'']] \<and>
   fst (execute (example counting (Some (Fin 1000)) throwing) [JStr ''a'']
          (throttle throwing)) = Inl (Thrown (JStr ''no''))"
  by (simp add: call_defs)

theorem second_call_cached_witness:
  "\<not> bypass (timeout (example counting (Some (Fin 1000)) (lru_options (Fin 1)))) \<and>
   room_for_one (cache (throttle (lru_options (Fin 1)))) \<and>
   \<not> cache_has (cache (throttle (lru_options (Fin 1))))
       (resolveKey (example counting (Some (Fin 1000)) (lru_options (Fin 1))) [JStr ''a'']) \<and>
   func (example counting (Some (Fin 1000)) (lru_options (Fin 1)))
     (calls (throttle (lru_options (Fin 1)))) [JStr ''a''] = Inr (JNum (Fin 0)) \<and>
   resolveKey (example counting (Some (Fin 1000)) (lru_options (Fin 1))) [JArray [JStr ''a'']]
     = resolveKey (example counting (Some (Fin 1000)) (lru_options (Fin 1))) [JStr ''a''] \<and>
   fst (execute (example counting (Some (Fin 1000)) (lru_options (Fin 1))) [JStr ''a'']
          (throttle (lru_options (Fin 1)))) = Inr (JNum (Fin 0)) \<and>
   fst (execute (example counting (Some (Fin 1000)) (lru_options (Fin 1)))
          [JArray [JStr ''a'']]
          (snd (execute (example counting (Some (Fin 1000)) (lru_options (Fin 1)))
                  [JStr ''a''] (throttle (lru_options (Fin 1)))))) = Inr (JNum (Fin 0)) \<and>
   calls (snd (execute (example counting (Some (Fin 1000)) (lru_options (Fin 1)))
          [JArray [JStr ''a'']]
          (snd (execute (example counting (Some (Fin 1000)) (lru_options (Fin 1)))
                  [JStr ''a''] (throttle (lru_options (Fin 1))))))) = [[JStr ''a'']]"
proof -
  let ?t = "example counting (Some (Fin 1000)) (lru_options (Fin 1))"
  let ?s = "throttle (lru_options (Fin 1))"
  have h1: "\<not> bypass (timeout ?t)" by (simp add: eval_defs)
  have h2: "room_for_one (cache ?s)" by (simp add: call_defs)
  have h3: "\<not> cache_has (cache ?s) (resolveKey ?t [JStr ''a''])" by (simp add: call_defs)
  have h4: "func ?t (calls ?s) [JStr ''a''] = Inr (JNum (Fin 0))" by (simp add: call_defs)
  have h5: "only_ttl (observer_calls (options ?t)
     \<lparr>item_key = resolveKey ?t [JStr ''a''], item_value = JNum (Fin 0),
        item_cell = next_cell ?s\<rparr>)"
    by (simp add: example_defs lru_options_def observer_calls_def)
  have h6: "resolveKey ?t [JArray [JStr ''a'']] = resolveKey ?t [JStr ''a'']"
    by (simp add: resolveKey_def defaultResolver_def example_defs lru_options_def)
  have c: "calls ?s = []" by (simp add: throttle_def)
  from second_call_cached [OF h1 h2 h3 h4 h5 h6] h1 h2 h3 h4 h6 show ?thesis
    by (simp add: c)
qed

subsection \<open>Timers\<close>










subsection \<open>A call that populates\<close>








end
